theory Spec2Isabelle
  imports Complex_Main
begin

section \<open>Data model\<close>

text \<open>
  The decoded sprite as \<^verbatim>\<open>getVerticesFromImage\<close> sees it: \<^verbatim>\<open>img.width\<close>,
  \<^verbatim>\<open>img.height\<close> and the RGBA bytes \<^verbatim>\<open>ctx.getImageData(0, 0, w, h).data\<close>
  (a \<^verbatim>\<open>Uint8ClampedArray\<close>, row-major, four bytes per pixel, alpha last).
\<close>

record image =
  width :: int
  height :: int
  data :: "nat list"

text \<open>
  What \<^verbatim>\<open>getImageData\<close> guarantees about the buffer: positive dimensions,
  \<open>4 * w * h\<close> bytes, each at most 255.
\<close>

definition wellFormed :: "image \<Rightarrow> bool" where
  "wellFormed im =
     (0 < width im \<and> 0 < height im \<and>
      int (length (data im)) = 4 * width im * height im \<and>
      list_all (\<lambda>b. b \<le> 255) (data im))"

text \<open>A point \<^verbatim>\<open>{ x, y }\<close> of the traced path, in raster coordinates.\<close>

type_synonym point = "int \<times> int"

section \<open>Alpha mask sampler\<close>

definition alphaThreshold :: nat where
  "alphaThreshold = 10"

text \<open>
  Reading \<^verbatim>\<open>data[index]\<close>: a typed array yields \<^verbatim>\<open>undefined\<close> (here
  \<open>None\<close>) outside its length, and \<^verbatim>\<open>undefined > 10\<close> is false.
\<close>

definition typedArrayGet :: "nat list \<Rightarrow> int \<Rightarrow> nat option" where
  "typedArrayGet d i = (if 0 \<le> i \<and> nat i < length d then Some (d ! nat i) else None)"

definition getVal :: "image \<Rightarrow> int \<Rightarrow> int \<Rightarrow> nat" where
  "getVal im x y =
     (if x < 0 \<or> y < 0 \<or> x \<ge> width im \<or> y \<ge> height im then 0
      else let index = (y * width im + x) * 4 + 3 in
        (case typedArrayGet (data im) index of
           None \<Rightarrow> 0
         | Some a \<Rightarrow> if a > alphaThreshold then 1 else 0))"

definition isSolid :: "image \<Rightarrow> int \<Rightarrow> int \<Rightarrow> bool" where
  "isSolid im x y = (getVal im x y = 1)"

text \<open>The alpha byte of the pixel in column \<open>x\<close> of row \<open>y\<close>.\<close>

definition alphaAt :: "image \<Rightarrow> int \<Rightarrow> int \<Rightarrow> nat" where
  "alphaAt im x y = data im ! nat ((y * width im + x) * 4 + 3)"

text \<open>
  The sampler as the specification words it: inside the image, and the alpha value
  \<^emph>\<open>meets\<close> the minimum threshold.
\<close>

definition solidAsSpecified :: "image \<Rightarrow> int \<Rightarrow> int \<Rightarrow> bool" where
  "solidAsSpecified im x y =
     (0 \<le> x \<and> x < width im \<and> 0 \<le> y \<and> y < height im \<and> alphaAt im x y \<ge> alphaThreshold)"

section \<open>Seed point search\<close>

text \<open>
  The two nested \<^verbatim>\<open>for\<close> loops
  \<^verbatim>\<open>for (y = 0; y < h; y += step) for (x = 0; x < w; x += step)\<close>, as one function
  of the loop variables. \<open>Some (Some (x, y))\<close> is the first solid sample,
  \<open>Some None\<close> is a scan that ends without one, and \<open>None\<close> is a scan that never
  ends (a step that is not positive does not advance).
\<close>

partial_function (option) findStart :: "image \<Rightarrow> int \<Rightarrow> int \<Rightarrow> int \<Rightarrow> point option option" where
  "findStart im samplingStep y x =
     (if y < height im then
        (if x < width im then
           (if getVal im x y = 1 then Some (Some (x, y))
            else findStart im samplingStep y (x + samplingStep))
         else findStart im samplingStep (y + samplingStep) 0)
      else Some None)"

text \<open>
  The values the loop variable of \<^verbatim>\<open>for (v = 0; v < n; v += step)\<close> takes, in order, and
  the coordinates the seed search samples, in the order it visits them (row by row, each
  row left to right).
\<close>

definition samples :: "int \<Rightarrow> int \<Rightarrow> int list" where
  "samples step n = map (\<lambda>i. int i * step) [0..<nat ((n + step - 1) div step)]"

definition gridSamples :: "image \<Rightarrow> int \<Rightarrow> point list" where
  "gridSamples im step =
     concat (map (\<lambda>y. map (\<lambda>x. (x, y)) (samples step (width im))) (samples step (height im)))"

section \<open>Boundary tracer\<close>

text \<open>
  The variables of the \<^verbatim>\<open>do ... while\<close> loop: the current position, the direction of
  the last move (0: +x, 1: +y, 2: -x, 3: -y), the remaining budget, the path pushed so
  far, and whether the last pass through the body found a solid candidate.
\<close>

record tracer =
  cx :: int
  cy :: int
  dir :: nat
  maxIter :: int
  path :: "point list"
  found :: bool

definition checkDirs :: "nat \<Rightarrow> nat list" where
  "checkDirs d = [(d + 3) mod 4, d, (d + 1) mod 4, (d + 2) mod 4]"

text \<open>The candidate \<^verbatim>\<open>(nx, ny)\<close> one step from \<open>(x, y)\<close> in direction \<open>d\<close>.\<close>

definition neighbour :: "int \<Rightarrow> int \<Rightarrow> int \<Rightarrow> nat \<Rightarrow> point" where
  "neighbour step x y d =
     (let nx = x; ny = y;
          nx = (if d = 0 then nx + step else nx);
          ny = (if d = 1 then ny + step else ny);
          nx = (if d = 2 then nx - step else nx);
          ny = (if d = 3 then ny - step else ny)
      in (nx, ny))"

text \<open>
  The inner \<^verbatim>\<open>for (let d of checkDirs)\<close>: the first candidate that is solid, with its
  direction, or \<open>None\<close> when the loop ends with \<^verbatim>\<open>found\<close> still false.
\<close>

fun tryDirs :: "image \<Rightarrow> int \<Rightarrow> int \<Rightarrow> int \<Rightarrow> nat list \<Rightarrow> (int \<times> int \<times> nat) option" where
  "tryDirs im step x y [] = None"
| "tryDirs im step x y (d # ds) =
     (let (nx, ny) = neighbour step x y d in
      if isSolid im nx ny then Some (nx, ny, d) else tryDirs im step x y ds)"

text \<open>
  One call is one pass through the body of the \<^verbatim>\<open>do ... while\<close> loop, followed by
  its test; the result is the state of the variables when the loop is left.
\<close>

function traceLoop :: "image \<Rightarrow> int \<Rightarrow> int \<Rightarrow> int \<Rightarrow> tracer \<Rightarrow> tracer" where
  "traceLoop im step sx sy s =
     (let s1 = s\<lparr>path := path s @ [(cx s, cy s)]\<rparr> in
      case tryDirs im step (cx s1) (cy s1) (checkDirs (dir s1)) of
        None \<Rightarrow> s1\<lparr>found := False\<rparr>
      | Some (nx, ny, d) \<Rightarrow>
          let s2 = s1\<lparr>cx := nx, cy := ny, dir := d, found := True, maxIter := maxIter s1 - 1\<rparr> in
          if (cx s2 \<noteq> sx \<or> cy s2 \<noteq> sy) \<and> maxIter s2 > 0 then traceLoop im step sx sy s2
          else s2)"
  by pat_completeness auto
termination
  by (relation "measure (\<lambda>(im, step, sx, sy, s). nat (maxIter s))") auto

declare traceLoop.simps [simp del]

text \<open>The tracer's variables before the first pass.\<close>

definition initialTracer :: "int \<Rightarrow> int \<Rightarrow> tracer" where
  "initialTracer sx sy = \<lparr>cx = sx, cy = sy, dir = 0, maxIter = 5000, path = [], found = False\<rparr>"

text \<open>
  What holds of the tracer's variables \<open>st\<close> when the loop, entered in state \<open>s\<close>, is
  left: the path has grown by the entry point and what followed, every pass pushed one
  point and every pass but a final \<^verbatim>\<open>break\<close> took one unit of budget, the budget is
  not overdrawn, a \<^verbatim>\<open>break\<close> happened only with no solid candidate, and a loop left
  with budget to spare and a candidate found is back at the seed.
\<close>

definition leftLoop :: "image \<Rightarrow> int \<Rightarrow> int \<Rightarrow> int \<Rightarrow> tracer \<Rightarrow> tracer \<Rightarrow> bool" where
  "leftLoop im step sx sy s st =
     ((\<exists>rest. path st = path s @ (cx s, cy s) # rest)
      \<and> int (length (path st)) + maxIter st =
          int (length (path s)) + maxIter s + (if found st then 0 else 1)
      \<and> (if found st then 0 \<le> maxIter st else 0 < maxIter st)
      \<and> (found st \<or> tryDirs im step (cx st) (cy st) (checkDirs (dir st)) = None)
      \<and> (found st \<and> 0 < maxIter st \<longrightarrow> cx st = sx \<and> cy st = sy))"

text \<open>
  The tracer let run with no loop test: the position and the direction after \<open>n\<close>
  moves from \<open>(x, y)\<close> with direction \<open>d\<close>, each move the one the loop body makes
  (\<open>tryDirs\<close> over \<open>checkDirs\<close>), and \<open>None\<close> once a position has no solid candidate.
\<close>

definition position :: "int \<times> int \<times> nat \<Rightarrow> point" where
  "position c = (fst c, fst (snd c))"

fun walk :: "image \<Rightarrow> int \<Rightarrow> nat \<Rightarrow> int \<times> int \<times> nat \<Rightarrow> (int \<times> int \<times> nat) option" where
  "walk im step 0 c = Some c"
| "walk im step (Suc n) (x, y, d) =
     (case tryDirs im step x y (checkDirs d) of
        None \<Rightarrow> None
      | Some c \<Rightarrow> walk im step n c)"

text \<open>
  The three reasons to stop, as the specification words them, read after \<open>k\<close> passes
  from the seed: no candidate direction is solid, or the current position is the seed
  again, or the budget of 5000 iterations is used up.
\<close>

definition stopsAsSpecified :: "image \<Rightarrow> int \<Rightarrow> int \<Rightarrow> int \<Rightarrow> nat \<Rightarrow> bool" where
  "stopsAsSpecified im step sx sy k =
     (case walk im step k (sx, sy, 0) of
        None \<Rightarrow> True
      | Some c \<Rightarrow> position c = (sx, sy) \<or> 5000 \<le> k)"

text \<open>
  The loop, entered in state \<open>s\<close> and left in state \<open>st\<close>, made \<open>n\<close> passes: it pushed
  the first \<open>n\<close> positions of the walk from \<open>s\<close>, none of them but the first the seed,
  within the budget, and it was left where the walk is after \<open>n\<close> moves: with no
  candidate, or at the seed, or with the budget used up.
\<close>

definition walked :: "image \<Rightarrow> int \<Rightarrow> int \<Rightarrow> int \<Rightarrow> tracer \<Rightarrow> tracer \<Rightarrow> nat \<Rightarrow> bool" where
  "walked im step sx sy s st n =
     (0 < n \<and> int n \<le> maxIter s
      \<and> length (path st) = length (path s) + n
      \<and> (\<forall>i<n. map_option position (walk im step i (cx s, cy s, dir s)) =
                  Some (path st ! (length (path s) + i)))
      \<and> (\<forall>k. 0 < k \<and> k < n \<longrightarrow>
            (\<exists>c. walk im step k (cx s, cy s, dir s) = Some c \<and> position c \<noteq> (sx, sy)))
      \<and> walk im step n (cx s, cy s, dir s) =
          (if found st then Some (cx st, cy st, dir st) else None)
      \<and> (found st \<longrightarrow> (cx st = sx \<and> cy st = sy) \<or> int n = maxIter s))"

text \<open>A solid sample whose coordinates are multiples of the sampling step.\<close>

definition onGrid :: "image \<Rightarrow> int \<Rightarrow> point \<Rightarrow> bool" where
  "onGrid im step p = (isSolid im (fst p) (snd p) \<and> step dvd fst p \<and> step dvd snd p)"

section \<open>Path simplification\<close>

text \<open>
  \<^verbatim>\<open>Math.hypot\<close> on integer differences, as the exact Euclidean length. The sum of
  squares is an integer: when it is 225 the length is 15 itself, and otherwise it is at
  most \<open>sqrt 224\<close> or at least \<open>sqrt 226\<close>, so the comparison with 15 does not depend
  on the rounding of floating-point arithmetic.
\<close>

definition hypot :: "int \<Rightarrow> int \<Rightarrow> real" where
  "hypot a b = sqrt (real_of_int (a * a + b * b))"

text \<open>
  The loop \<^verbatim>\<open>for (i = 1; i < path.length; i++)\<close> over the rest of the path, with
  \<^verbatim>\<open>simplified\<close> as it grows.
\<close>

fun simplifyLoop :: "point list \<Rightarrow> point list \<Rightarrow> point list" where
  "simplifyLoop [] simplified = simplified"
| "simplifyLoop (p2 # rest) simplified =
     (let p1 = last simplified;
          dist = hypot (fst p1 - fst p2) (snd p1 - snd p2)
      in if dist > 15 then simplifyLoop rest (simplified @ [p2])
         else simplifyLoop rest simplified)"

definition simplify :: "point list \<Rightarrow> point list" where
  "simplify pth =
     (let simplified = (if length pth > 0 then [pth ! 0] else [])
      in simplifyLoop (drop 1 pth) simplified)"

text \<open>
  The greedy distance filter as the specification words it: keep the first point; keep
  each later point exactly when its distance from the last kept point exceeds 15.
\<close>

fun keepFar :: "point \<Rightarrow> point list \<Rightarrow> point list" where
  "keepFar k [] = []"
| "keepFar k (p # ps) =
     (if hypot (fst k - fst p) (snd k - snd p) > 15 then p # keepFar p ps else keepFar k ps)"

definition simplifyAsSpecified :: "point list \<Rightarrow> point list" where
  "simplifyAsSpecified pth = (case pth of [] \<Rightarrow> [] | p # ps \<Rightarrow> p # keepFar p ps)"

section \<open>Extraction\<close>

text \<open>
  \<^verbatim>\<open>getVerticesFromImage(img, samplingStep)\<close>. The outer \<open>option\<close> is whether the
  call returns; the inner one is \<^verbatim>\<open>null\<close> (\<open>None\<close>) or the array of points. The
  source scans for the seed twice, first into \<^verbatim>\<open>startPoint\<close>, then into
  \<^verbatim>\<open>sx, sy\<close> (initially -1).
\<close>

definition getVerticesFromImage :: "image \<Rightarrow> int \<Rightarrow> point list option option" where
  "getVerticesFromImage im samplingStep =
     Option.bind (findStart im samplingStep 0 0) (\<lambda>startPoint.
       if startPoint = None then Some None
       else Option.bind (findStart im samplingStep 0 0) (\<lambda>first.
         let (sx, sy) = (case first of None \<Rightarrow> (-1, -1) | Some p \<Rightarrow> p) in
         if sx = -1 then Some None
         else
           let s = traceLoop im samplingStep sx sy (initialTracer sx sy);
               simplified = simplify (path s)
           in Some (Some (map (\<lambda>p. (fst p, snd p)) simplified))))"

section \<open>Spawning bodies\<close>

text \<open>
  The sprite data attached to a body (\<^verbatim>\<open>plugin.sprite\<close>), and the two ways the game
  builds a body: \<^verbatim>\<open>Bodies.fromVertices(x, y, [vertices], options)\<close> and
  \<^verbatim>\<open>Bodies.rectangle(x, y, width, height, options)\<close>. The physical options are the same
  constants in every call and are left out. Numbers that are not raster coordinates are
  reals.
\<close>

record sprite =
  texture :: string
  xScale :: real
  yScale :: real

datatype body =
    FromVertices real real "(real \<times> real) list" sprite
  | Rectangle real real real real sprite

fun spriteOf :: "body \<Rightarrow> sprite" where
  "spriteOf (FromVertices x y vs sp) = sp"
| "spriteOf (Rectangle x y w h sp) = sp"

text \<open>An entry of \<^verbatim>\<open>vertexCache\<close>: \<^verbatim>\<open>{ vertices, scale, img }\<close>, \<^verbatim>\<open>vertices\<close> possibly \<^verbatim>\<open>null\<close>.\<close>

record entry =
  vertices :: "(real \<times> real) list option"
  scale :: real
  img :: image

text \<open>
  The globals the spawning code reads and writes. \<open>loading\<close> holds the asset of every
  \<^verbatim>\<open>Image\<close> whose \<^verbatim>\<open>onload\<close> handler is still to run; \<open>extractions\<close> is a log, not a
  variable of the source: the asset of every call of \<^verbatim>\<open>getVerticesFromImage\<close>, in order.
\<close>

record game =
  vertexCache :: "string \<Rightarrow> entry option"
  currentBody :: "body option"
  isDropping :: bool
  gameOver :: bool
  world :: "body list"
  innerWidth :: real
  loading :: "string list"
  extractions :: "string list"

text \<open>
  \<^verbatim>\<open>createBody(x, y, assetPath, data)\<close>. \<open>builds vs\<close> says whether the physics engine's
  \<^verbatim>\<open>Bodies.fromVertices\<close> returns a body for the vertex list \<open>vs\<close> (it is falsy when
  the engine finds no usable part).
\<close>

definition createBody ::
  "((real \<times> real) list \<Rightarrow> bool) \<Rightarrow> real \<Rightarrow> real \<Rightarrow> string \<Rightarrow> entry \<Rightarrow> game \<Rightarrow> game" where
  "createBody builds x y assetPath dat g =
     (let spriteData = \<lparr>texture = assetPath, xScale = scale dat, yScale = scale dat\<rparr>;
          fallback = Rectangle x y (real_of_int (width (img dat)) * scale dat)
                       (real_of_int (height (img dat)) * scale dat) spriteData;
          b = (case vertices dat of
                 Some vs \<Rightarrow> if builds vs then FromVertices x y vs spriteData else fallback
               | None \<Rightarrow> fallback)
      in g\<lparr>currentBody := Some b, isDropping := False, world := world g @ [b]\<rparr>)"

text \<open>
  The \<^verbatim>\<open>img.onload\<close> handler of \<^verbatim>\<open>spawnNewBody\<close>, for the asset \<open>randomAsset\<close> and the
  decoded image \<open>im\<close>. \<open>None\<close> is a handler that does not return.
\<close>

definition onload ::
  "((real \<times> real) list \<Rightarrow> bool) \<Rightarrow> string \<Rightarrow> image \<Rightarrow> game \<Rightarrow> game option" where
  "onload builds randomAsset im g =
     (if gameOver g then Some g
      else
        let maxDim = 120;
            sc = min (maxDim / real_of_int (width im)) (maxDim / real_of_int (height im));
            startX = innerWidth g / 2;
            startY = 100
        in Option.bind (getVerticesFromImage im 4) (\<lambda>rawVertices.
             let g1 = g\<lparr>extractions := extractions g @ [randomAsset]\<rparr>;
                 vs = map_option (map (\<lambda>v. (real_of_int (fst v) * sc, real_of_int (snd v) * sc)))
                        rawVertices
             in if (case vs of Some l \<Rightarrow> length l > 2 | None \<Rightarrow> False)
                then
                  let e = \<lparr>vertices = vs, scale = sc, img = im\<rparr>;
                      g2 = g1\<lparr>vertexCache := (vertexCache g1)(randomAsset \<mapsto> e)\<rparr>
                  in Some (createBody builds startX startY randomAsset e g2)
                else
                  let e = \<lparr>vertices = None, scale = sc, img = im\<rparr>;
                      g2 = g1\<lparr>vertexCache := (vertexCache g1)(randomAsset \<mapsto> e)\<rparr>
                  in Some (createBody builds startX startY randomAsset e g2)))"

text \<open>\<^verbatim>\<open>spawnNewBody()\<close>, with the asset that \<^verbatim>\<open>Math.random\<close> picks as a parameter.\<close>

definition spawnNewBody :: "((real \<times> real) list \<Rightarrow> bool) \<Rightarrow> string \<Rightarrow> game \<Rightarrow> game" where
  "spawnNewBody builds randomAsset g =
     (if gameOver g then g
      else
        let startX = innerWidth g / 2;
            startY = 100
        in case vertexCache g randomAsset of
             Some e \<Rightarrow> createBody builds startX startY randomAsset e g
           | None \<Rightarrow> g\<lparr>loading := loading g @ [randomAsset]\<rparr>)"

text \<open>
  The event loop runs one callback at a time: a call of \<^verbatim>\<open>spawnNewBody\<close>, or the
  \<^verbatim>\<open>onload\<close> handler of an image that is still loading.
\<close>

datatype event = Spawn string | Onload string image

definition fire :: "((real \<times> real) list \<Rightarrow> bool) \<Rightarrow> event \<Rightarrow> game \<Rightarrow> game option" where
  "fire builds ev g =
     (case ev of
        Spawn a \<Rightarrow> Some (spawnNewBody builds a g)
      | Onload a im \<Rightarrow>
          if a \<in> set (loading g) then onload builds a im (g\<lparr>loading := remove1 a (loading g)\<rparr>)
          else Some g)"

fun run :: "((real \<times> real) list \<Rightarrow> bool) \<Rightarrow> event list \<Rightarrow> game \<Rightarrow> game option" where
  "run builds [] g = Some g"
| "run builds (ev # evs) g = Option.bind (fire builds ev g) (run builds evs)"

definition newGame :: "real \<Rightarrow> game" where
  "newGame w = \<lparr>vertexCache = Map.empty, currentBody = None, isDropping = False, gameOver = False,
                world = [], innerWidth = w, loading = [], extractions = []\<rparr>"


text \<open>The entry the handler stores for an image and the result of its extraction.\<close>

definition storedEntry :: "image \<Rightarrow> point list option \<Rightarrow> entry" where
  "storedEntry im raw =
     (let sc = min (120 / real_of_int (width im)) (120 / real_of_int (height im));
          vs = map_option (map (\<lambda>v. (real_of_int (fst v) * sc, real_of_int (snd v) * sc))) raw
      in \<lparr>vertices = (if (case vs of Some l \<Rightarrow> length l > 2 | None \<Rightarrow> False) then vs else None),
          scale = sc, img = im\<rparr>)"

text \<open>The body \<open>createBody\<close> builds from an entry.\<close>

definition builtBody ::
  "((real \<times> real) list \<Rightarrow> bool) \<Rightarrow> real \<Rightarrow> real \<Rightarrow> string \<Rightarrow> entry \<Rightarrow> body" where
  "builtBody builds x y assetPath dat =
     (let spriteData = \<lparr>texture = assetPath, xScale = scale dat, yScale = scale dat\<rparr>;
          fallback = Rectangle x y (real_of_int (width (img dat)) * scale dat)
                       (real_of_int (height (img dat)) * scale dat) spriteData
      in case vertices dat of
           Some vs \<Rightarrow> if builds vs then FromVertices x y vs spriteData else fallback
         | None \<Rightarrow> fallback)"

section \<open>Rectangles on the sampling grid\<close>

text \<open>
  The least multiple of the step \<open>s\<close> that is at least \<open>v\<close> and the greatest one below
  \<open>v\<close>: the first and the last sampled coordinate of a pixel range \<open>[v0, v1)\<close> are
  \<open>firstSample s v0\<close> and \<open>lastSample s v1\<close>.
\<close>

definition firstSample :: "int \<Rightarrow> int \<Rightarrow> int" where
  "firstSample s v = ((v + s - 1) div s) * s"

definition lastSample :: "int \<Rightarrow> int \<Rightarrow> int" where
  "lastSample s v = ((v - 1) div s) * s"

text \<open>
  The change of the column and row index of a sample under a move in direction \<open>c\<close>;
  the index rectangle \<open>[0, m] \<times> [0, n]\<close>; and an image whose solid samples, counted in
  steps from the origin \<open>(ox, oy)\<close>, are exactly those of that index rectangle.
\<close>

definition dx :: "nat \<Rightarrow> int" where
  "dx c = (if c = 0 then 1 else if c = 2 then - 1 else 0)"

definition dy :: "nat \<Rightarrow> int" where
  "dy c = (if c = 1 then 1 else if c = 3 then - 1 else 0)"

definition inside :: "nat \<Rightarrow> nat \<Rightarrow> int \<Rightarrow> int \<Rightarrow> bool" where
  "inside m n i j = (0 \<le> i \<and> i \<le> int m \<and> 0 \<le> j \<and> j \<le> int n)"

definition gridRect :: "image \<Rightarrow> int \<Rightarrow> int \<Rightarrow> int \<Rightarrow> nat \<Rightarrow> nat \<Rightarrow> bool" where
  "gridRect im s ox oy m n = (\<forall>i j. isSolid im (ox + i * s) (oy + j * s) = inside m n i j)"

text \<open>
  The boundary of the index rectangle, walked from the origin: along the top to the
  right, down the right side, back along the bottom, up the left side, each corner
  listed with the side that leaves it.
\<close>

definition perimeter :: "int \<Rightarrow> int \<Rightarrow> int \<Rightarrow> nat \<Rightarrow> nat \<Rightarrow> point list" where
  "perimeter s ox oy m n =
     map (\<lambda>i. (ox + int i * s, oy)) [0..<m]
     @ map (\<lambda>j. (ox + int m * s, oy + int j * s)) [0..<n]
     @ map (\<lambda>i. (ox + (int m - int i) * s, oy + int n * s)) [0..<m]
     @ map (\<lambda>j. (ox, oy + (int n - int j) * s)) [0..<n]"

section \<open>Directions, as displayed\<close>

text \<open>
  The unit vector of direction \<open>d\<close> (the source numbers them 0: right, 1: down, 2: left,
  3: up, in raster coordinates with \<open>x\<close> to the right and \<open>y\<close> downward), and the point
  one sampling step from \<open>(x, y)\<close> along a vector.
\<close>

definition ahead :: "nat \<Rightarrow> int \<times> int" where
  "ahead d = neighbour 1 0 0 d"

definition target :: "int \<Rightarrow> int \<Rightarrow> int \<Rightarrow> int \<times> int \<Rightarrow> point" where
  "target step x y v = (x + step * fst v, y + step * snd v)"

text \<open>
  Turns relative to the last move, as seen on the displayed image (\<open>y\<close> grows downward):
  a right turn takes right (+x) to down (+y), down to left, left to up and up to right;
  a left turn is its inverse. The source's comment on the order of \<^verbatim>\<open>checkDirs\<close> reads
  ``Turn Left, then scan clockwise''.
\<close>

definition turnRight :: "int \<times> int \<Rightarrow> int \<times> int" where
  "turnRight v = (- snd v, fst v)"

definition turnLeft :: "int \<times> int \<Rightarrow> int \<times> int" where
  "turnLeft v = (snd v, - fst v)"

definition turnBack :: "int \<times> int \<Rightarrow> int \<times> int" where
  "turnBack v = (- fst v, - snd v)"

text \<open>
  The priority order as the specification words it: right turn, straight ahead, left
  turn, reverse.
\<close>

definition dirsAsSpecified :: "nat \<Rightarrow> nat list" where
  "dirsAsSpecified d = [(d + 1) mod 4, d, (d + 3) mod 4, (d + 2) mod 4]"

section \<open>Example images\<close>

definition onePixel :: "nat \<Rightarrow> image" where
  "onePixel a = \<lparr>width = 1, height = 1, data = [0, 0, 0, a]\<rparr>"

text \<open>
  The \<open>w\<close> x \<open>h\<close> image whose pixel \<open>(x, y)\<close> is opaque black where \<open>solid x y\<close>
  and transparent elsewhere.
\<close>

definition maskImage :: "nat \<Rightarrow> nat \<Rightarrow> (int \<Rightarrow> int \<Rightarrow> bool) \<Rightarrow> image" where
  "maskImage w h solid =
     \<lparr>width = int w, height = int h,
      data = map (\<lambda>k. if k mod 4 = 3 \<and> solid (int ((k div 4) mod w)) (int ((k div 4) div w))
                       then 255 else 0) [0..<4 * w * h]\<rparr>"

text \<open>
  A 12 x 12 image whose opaque region is a plus: the column \<open>4 \<le> x < 8\<close> and the row
  \<open>4 \<le> y < 8\<close>. At step 4 its solid samples are (4,0), (0,4), (4,4), (8,4) and (4,8).
\<close>

definition plusImage :: image where
  "plusImage = maskImage 12 12 (\<lambda>x y. (4 \<le> x \<and> x < 8) \<or> (4 \<le> y \<and> y < 8))"

text \<open>The fully opaque \<open>w\<close> x \<open>h\<close> image.\<close>

definition solidImage :: "nat \<Rightarrow> nat \<Rightarrow> image" where
  "solidImage w h = maskImage w h (\<lambda>x y. True)"

text \<open>The fully transparent \<open>w\<close> x \<open>h\<close> image.\<close>

definition transparentImage :: "nat \<Rightarrow> nat \<Rightarrow> image" where
  "transparentImage w h = maskImage w h (\<lambda>x y. False)"

text \<open>An 8 x 8 image whose only solid sample at step 4 is (0, 0).\<close>

definition dotImage :: image where
  "dotImage = maskImage 8 8 (\<lambda>x y. x < 4 \<and> y < 4)"

text \<open>A 64 x 64 image, opaque except for a transparent border of 4 pixels.\<close>

definition borderImage :: image where
  "borderImage = maskImage 64 64 (\<lambda>x y. 4 \<le> x \<and> x < 60 \<and> 4 \<le> y \<and> y < 60)"

section \<open>Theorems: alpha mask sampler\<close>

lemma pixel_index_in_range:
  assumes "0 \<le> x" "x < w" "0 \<le> y" "y < h"
  shows "0 \<le> (y * w + x) * 4 + 3 \<and> (y * w + x) * 4 + 3 < 4 * w * (h::int)"
proof -
  have "y * w \<le> (h - 1) * w"
    using assms by (intro mult_right_mono) auto
  then have "y * w + x < h * w"
    using assms by (simp add: algebra_simps)
  moreover have "0 \<le> y * w"
    using assms by simp
  ultimately show ?thesis
    using assms by (simp add: algebra_simps)
qed

lemma getVal_in_bounds:
  assumes "wellFormed im" "0 \<le> x" "x < width im" "0 \<le> y" "y < height im"
  shows "getVal im x y = (if alphaAt im x y > alphaThreshold then 1 else 0)"
proof -
  have len: "int (length (data im)) = 4 * width im * height im"
    using assms(1) by (simp add: wellFormed_def)
  have "0 \<le> (y * width im + x) * 4 + 3 \<and> (y * width im + x) * 4 + 3 < 4 * width im * height im"
    using assms(2-5) by (rule pixel_index_in_range)
  then have "0 \<le> (y * width im + x) * 4 + 3
      \<and> nat ((y * width im + x) * 4 + 3) < length (data im)"
    using len by linarith
  then have "typedArrayGet (data im) ((y * width im + x) * 4 + 3) = Some (alphaAt im x y)"
    unfolding typedArrayGet_def alphaAt_def by simp
  then show ?thesis
    using assms(2-5) by (simp add: getVal_def Let_def)
qed

lemma getVal_outside:
  "x < 0 \<or> y < 0 \<or> width im \<le> x \<or> height im \<le> y \<Longrightarrow> getVal im x y = 0"
  by (simp add: getVal_def)

lemma getVal_le_1: "getVal im x y \<le> 1"
  by (simp add: getVal_def Let_def split: option.splits)

text \<open>
  Claim C7, as the code has it: on a well-formed image, \<open>getVal\<close> answers 1 exactly
  for the coordinates inside \<open>[0, width) \<times> [0, height)\<close> whose alpha byte is
  strictly greater than the threshold 10, and 0 for everything else; every coordinate
  outside the bounds is empty (no wrap-around, no failure).
\<close>

theorem getVal_solid_iff:
  assumes "wellFormed im"
  shows "(getVal im x y = 1) =
           (0 \<le> x \<and> x < width im \<and> 0 \<le> y \<and> y < height im \<and> alphaAt im x y > 10)
         \<and> (getVal im x y = 0 \<or> getVal im x y = 1)
         \<and> (getVal im x y = 0) =
           (x < 0 \<or> width im \<le> x \<or> y < 0 \<or> height im \<le> y \<or> alphaAt im x y \<le> 10)"
proof (cases "0 \<le> x \<and> x < width im \<and> 0 \<le> y \<and> y < height im")
  case True
  then have "getVal im x y = (if alphaAt im x y > alphaThreshold then 1 else 0)"
    using assms by (simp add: getVal_in_bounds)
  then show ?thesis
    using True by (simp add: alphaThreshold_def)
next
  case False
  then have "getVal im x y = 0"
    by (intro getVal_outside) auto
  then show ?thesis
    using False by auto
qed

theorem getVal_solid_iff_witness:
  "wellFormed (onePixel 11) \<and> getVal (onePixel 11) 0 0 = 1 \<and> getVal (onePixel 11) 1 0 = 0
   \<and> getVal (onePixel 11) (-1) 0 = 0"
proof -
  have wf: "wellFormed (onePixel 11)"
    by (simp add: wellFormed_def onePixel_def)
  have a: "alphaAt (onePixel 11) 0 0 = 11"
    by (simp add: alphaAt_def onePixel_def)
  show ?thesis
    using wf a getVal_solid_iff [OF wf, of 0 0] getVal_solid_iff [OF wf, of 1 0]
      getVal_solid_iff [OF wf, of "-1" 0]
    by (simp add: onePixel_def)
qed

text \<open>
  Claim C7 as stated fails at an alpha byte equal to the threshold: the pixel of a
  well-formed 1 x 1 image with alpha 10 lies inside the bounds and meets the threshold
  of 10, and the sampler calls it empty.
\<close>

theorem getVal_threshold_counterexample:
  "wellFormed (onePixel 10) \<and> solidAsSpecified (onePixel 10) 0 0 \<and> getVal (onePixel 10) 0 0 = 0"
  by (simp add: wellFormed_def onePixel_def solidAsSpecified_def alphaAt_def getVal_def
      typedArrayGet_def alphaThreshold_def)

section \<open>Theorems: path simplification\<close>

lemma hypot_gt_15: "(hypot a b > 15) = (a * a + b * b > 225)"
proof -
  have "sqrt (225::real) = 15"
    by (rule real_sqrt_unique) simp_all
  then have "(hypot a b > 15) = (sqrt (real_of_int (a * a + b * b)) > sqrt 225)"
    by (simp add: hypot_def)
  also have "\<dots> = (real_of_int (a * a + b * b) > 225)"
    by (simp only: real_sqrt_less_iff)
  also have "\<dots> = (a * a + b * b > 225)"
    by linarith
  finally show ?thesis .
qed

lemma simplifyLoop_keepFar:
  "acc \<noteq> [] \<Longrightarrow> simplifyLoop ps acc = acc @ keepFar (last acc) ps"
  by (induction ps arbitrary: acc) (simp_all add: Let_def)

lemma length_keepFar: "length (keepFar k ps) \<le> length ps"
  by (induction ps arbitrary: k) (simp_all add: le_SucI)

lemma simplify_eq_spec: "simplify pth = simplifyAsSpecified pth"
proof (cases pth)
  case Nil
  then show ?thesis by (simp add: simplify_def simplifyAsSpecified_def)
next
  case (Cons p ps)
  then show ?thesis
    by (simp add: simplify_def simplifyAsSpecified_def simplifyLoop_keepFar)
qed

text \<open>
  Claim C6: simplification never lengthens the path, keeps the first point of a
  non-empty path first, maps the empty path to the empty path, and is the greedy filter
  that keeps a later point exactly when its Euclidean distance from the last kept point
  exceeds 15.
\<close>

theorem simplify_greedy_filter:
  "length (simplify pth) \<le> length pth
   \<and> (pth \<noteq> [] \<longrightarrow> simplify pth \<noteq> [] \<and> simplify pth ! 0 = pth ! 0)
   \<and> (pth = [] \<longrightarrow> simplify pth = [])
   \<and> simplify pth = simplifyAsSpecified pth"
proof (cases pth)
  case Nil
  then show ?thesis by (simp add: simplify_def simplifyAsSpecified_def)
next
  case (Cons p ps)
  have "simplify pth = p # keepFar p ps"
    using Cons by (simp add: simplify_eq_spec simplifyAsSpecified_def)
  moreover have "length (keepFar p ps) \<le> length ps"
    by (rule length_keepFar)
  ultimately show ?thesis
    using Cons by (simp add: simplifyAsSpecified_def)
qed

theorem simplify_greedy_filter_witness:
  "simplify [(0, 0), (4, 0), (16, 0), (20, 0), (12, 12), (8, 16)] = [(0, 0), (16, 0), (8, 16)]
   \<and> simplify [(0, 0), (9, 12), (16, 0)] = [(0, 0), (16, 0)]
   \<and> simplify [] = []"
  using simplify_greedy_filter [of "[(0, 0), (4, 0), (16, 0), (20, 0), (12, 12), (8, 16)]"]
    simplify_greedy_filter [of "[(0, 0), (9, 12), (16, 0)]"]
    simplify_greedy_filter [of "[]"]
  by (simp add: simplifyAsSpecified_def hypot_gt_15)

section \<open>Theorems: example images\<close>

lemma mask_index:
  assumes "a < w" "b < h"
  shows "(b * w + a) * 4 + 3 < 4 * w * h"
    and "((b * w + a) * 4 + 3) mod 4 = 3"
    and "((b * w + a) * 4 + 3) div 4 = b * w + a"
    and "(b * w + a) mod w = a"
    and "(b * w + a) div w = (b::nat)"
proof -
  have "b * w + a < b * w + w"
    using assms by simp
  also have "\<dots> = Suc b * w"
    by simp
  also have "\<dots> \<le> h * w"
    using assms by (intro mult_le_mono1) simp
  finally have "b * w + a < h * w" .
  then show "(b * w + a) * 4 + 3 < 4 * w * h"
    by (simp add: algebra_simps)
  show "((b * w + a) * 4 + 3) mod 4 = 3"
    by presburger
  show "((b * w + a) * 4 + 3) div 4 = b * w + a"
    by presburger
  show "(b * w + a) mod w = a"
    using assms by simp
  show "(b * w + a) div w = b"
    using assms by simp
qed

lemma typedArrayGet_map_upt:
  "k < n \<Longrightarrow> typedArrayGet (map f [0..<n]) (int k) = Some (f k)"
  by (simp add: typedArrayGet_def)

lemma getVal_maskImage:
  "getVal (maskImage w h solid) x y =
     (if 0 \<le> x \<and> x < int w \<and> 0 \<le> y \<and> y < int h \<and> solid x y then 1 else 0)"
proof (cases "0 \<le> x \<and> x < int w \<and> 0 \<le> y \<and> y < int h")
  case False
  then show ?thesis
    by (auto simp: getVal_def maskImage_def)
next
  case True
  define a b where "a = nat x" and "b = nat y"
  have ab: "x = int a" "y = int b" "a < w" "b < h"
    using True by (auto simp: a_def b_def)
  define k where "k = (b * w + a) * 4 + 3"
  define f where
    "f = (\<lambda>k. if k mod 4 = 3 \<and> solid (int ((k div 4) mod w)) (int ((k div 4) div w))
               then 255 else (0::nat))"
  have idx: "(y * width (maskImage w h solid) + x) * 4 + 3 = int k"
    using ab by (simp add: k_def maskImage_def)
  have k: "k < 4 * w * h" "k mod 4 = 3" "(k div 4) mod w = a" "(k div 4) div w = b"
    using mask_index [OF ab(3,4)] by (simp_all add: k_def)
  have "data (maskImage w h solid) = map f [0..<4 * w * h]"
    by (simp add: maskImage_def f_def)
  then have "typedArrayGet (data (maskImage w h solid)) (int k) = Some (f k)"
    using k(1) by (simp add: typedArrayGet_map_upt)
  moreover have "f k = (if solid x y then 255 else 0)"
    using k(2-4) ab(1,2) by (simp add: f_def)
  ultimately have "getVal (maskImage w h solid) x y = (if solid x y then 1 else 0)"
    using True idx by (simp add: getVal_def Let_def alphaThreshold_def maskImage_def)
  then show ?thesis
    using True by simp
qed

lemma isSolid_maskImage:
  "isSolid (maskImage w h solid) x y =
     (0 \<le> x \<and> x < int w \<and> 0 \<le> y \<and> y < int h \<and> solid x y)"
  by (simp add: isSolid_def getVal_maskImage)

lemma wellFormed_maskImage: "0 < w \<Longrightarrow> 0 < h \<Longrightarrow> wellFormed (maskImage w h solid)"
  by (auto simp: wellFormed_def maskImage_def list_all_iff)

lemma width_maskImage: "width (maskImage w h solid) = int w"
  by (simp add: maskImage_def)

lemma height_maskImage: "height (maskImage w h solid) = int h"
  by (simp add: maskImage_def)

section \<open>Theorems: direction priority of the tracer\<close>

lemma traceLoop_unfold:
  "traceLoop im step sx sy \<lparr>cx = x, cy = y, dir = d, maxIter = m, path = p, found = f\<rparr> =
     (case tryDirs im step x y (checkDirs d) of
        None \<Rightarrow> \<lparr>cx = x, cy = y, dir = d, maxIter = m, path = p @ [(x, y)], found = False\<rparr>
      | Some (nx, ny, d') \<Rightarrow>
          if (nx \<noteq> sx \<or> ny \<noteq> sy) \<and> m - 1 > 0
          then traceLoop im step sx sy
                 \<lparr>cx = nx, cy = ny, dir = d', maxIter = m - 1, path = p @ [(x, y)], found = True\<rparr>
          else \<lparr>cx = nx, cy = ny, dir = d', maxIter = m - 1, path = p @ [(x, y)], found = True\<rparr>)"
  by (subst traceLoop.simps) (simp add: Let_def split: option.splits)

lemma dir_cases: "d < 4 \<Longrightarrow> d = 0 \<or> d = 1 \<or> d = 2 \<or> d = (3::nat)"
  by arith

lemma ahead_checkDirs:
  assumes "d < 4"
  shows "map ahead (checkDirs d) = [turnLeft (ahead d), ahead d, turnRight (ahead d), turnBack (ahead d)]"
  using dir_cases [OF assms]
  by (auto simp: checkDirs_def ahead_def neighbour_def turnLeft_def turnRight_def turnBack_def)

lemma ahead_dirsAsSpecified:
  assumes "d < 4"
  shows "map ahead (dirsAsSpecified d) = [turnRight (ahead d), ahead d, turnLeft (ahead d), turnBack (ahead d)]"
  using dir_cases [OF assms]
  by (auto simp: dirsAsSpecified_def ahead_def neighbour_def turnLeft_def turnRight_def turnBack_def)

lemma neighbour_target: "d < 4 \<Longrightarrow> neighbour step x y d = target step x y (ahead d)"
  by (auto simp: neighbour_def target_def ahead_def dest!: dir_cases)

lemma checkDirs_lt_4: "d \<in> set (checkDirs n) \<Longrightarrow> n < 4 \<Longrightarrow> d < 4"
  by (auto simp: checkDirs_def)

lemma tryDirs_find:
  "tryDirs im step x y ds =
     (case find (\<lambda>d. isSolid im (fst (neighbour step x y d)) (snd (neighbour step x y d))) ds of
        None \<Rightarrow> None
      | Some d \<Rightarrow> Some (fst (neighbour step x y d), snd (neighbour step x y d), d))"
  by (induction ds) (simp_all add: Let_def split: prod.splits)

text \<open>
  Claim C1, as the code has it: for a tracer whose direction is one of the four axis
  directions, the candidates are each one sampling step away and are tried in the order
  left turn (as displayed: from +x to -y), straight ahead, right turn, reverse; the tracer
  moves to the first of them that is solid, and when none is solid the loop is left with
  the current point pushed and nothing else changed.
\<close>

theorem checkDirs_priority:
  assumes "dir s < 4"
  shows "map ahead (checkDirs (dir s)) =
           [turnLeft (ahead (dir s)), ahead (dir s), turnRight (ahead (dir s)), turnBack (ahead (dir s))]
         \<and> map (neighbour step (cx s) (cy s)) (checkDirs (dir s)) =
             map (\<lambda>d. target step (cx s) (cy s) (ahead d)) (checkDirs (dir s))
         \<and> traceLoop im step sx sy s =
             (case find (\<lambda>d. isSolid im (fst (neighbour step (cx s) (cy s) d))
                                        (snd (neighbour step (cx s) (cy s) d)))
                        (checkDirs (dir s)) of
                None \<Rightarrow> s\<lparr>path := path s @ [(cx s, cy s)], found := False\<rparr>
              | Some d \<Rightarrow>
                  let s2 = s\<lparr>path := path s @ [(cx s, cy s)],
                             cx := fst (neighbour step (cx s) (cy s) d),
                             cy := snd (neighbour step (cx s) (cy s) d),
                             dir := d, found := True, maxIter := maxIter s - 1\<rparr>
                  in if (cx s2 \<noteq> sx \<or> cy s2 \<noteq> sy) \<and> maxIter s2 > 0
                     then traceLoop im step sx sy s2 else s2)"
proof (intro conjI)
  show "map ahead (checkDirs (dir s)) =
          [turnLeft (ahead (dir s)), ahead (dir s), turnRight (ahead (dir s)), turnBack (ahead (dir s))]"
    using assms by (rule ahead_checkDirs)
  show "map (neighbour step (cx s) (cy s)) (checkDirs (dir s)) =
          map (\<lambda>d. target step (cx s) (cy s) (ahead d)) (checkDirs (dir s))"
    using assms by (auto simp: neighbour_target dest: checkDirs_lt_4)
  show "traceLoop im step sx sy s =
             (case find (\<lambda>d. isSolid im (fst (neighbour step (cx s) (cy s) d))
                                        (snd (neighbour step (cx s) (cy s) d)))
                        (checkDirs (dir s)) of
                None \<Rightarrow> s\<lparr>path := path s @ [(cx s, cy s)], found := False\<rparr>
              | Some d \<Rightarrow>
                  let s2 = s\<lparr>path := path s @ [(cx s, cy s)],
                             cx := fst (neighbour step (cx s) (cy s) d),
                             cy := snd (neighbour step (cx s) (cy s) d),
                             dir := d, found := True, maxIter := maxIter s - 1\<rparr>
                  in if (cx s2 \<noteq> sx \<or> cy s2 \<noteq> sy) \<and> maxIter s2 > 0
                     then traceLoop im step sx sy s2 else s2)"
    by (subst traceLoop.simps) (simp add: tryDirs_find Let_def split: option.splits)
qed

lemmas plus_eval =
  plusImage_def isSolid_maskImage checkDirs_def neighbour_def Let_def target_def ahead_def
  turnLeft_def turnRight_def turnBack_def dirsAsSpecified_def

theorem checkDirs_priority_witness:
  "map ahead (checkDirs 1) = [(1, 0), (0, 1), (- 1, 0), (0, - 1)]
   \<and> path (traceLoop plusImage 4 4 0
        \<lparr>cx = 4, cy = 4, dir = 1, maxIter = 4999, path = [(4, 0)], found = True\<rparr>) =
      [(4, 0), (4, 4), (8, 4), (4, 4), (4, 8), (4, 4), (0, 4), (4, 4)]"
  using checkDirs_priority [of "\<lparr>cx = 4, cy = 4, dir = 1, maxIter = 4999, path = [(4, 0)], found = True\<rparr>"
      4 plusImage 4 0]
  by (simp add: plus_eval traceLoop_unfold)

text \<open>
  Claim C1 as stated (right turn first) fails on the plus image: after the moves
  (4,0), (4,4) the tracer heads down (+y); the sample one step to its right, (0,4), is
  solid, and the tracer moves to (8,4), the sample to its left.
\<close>

theorem right_turn_first_counterexample:
  "take 3 (path (traceLoop plusImage 4 4 0 (initialTracer 4 0))) = [(4, 0), (4, 4), (8, 4)]
   \<and> ahead 1 = (0, 1)
   \<and> target 4 4 4 (turnRight (ahead 1)) = (0, 4)
   \<and> isSolid plusImage 0 4
   \<and> tryDirs plusImage 4 4 4 (dirsAsSpecified 1) = Some (0, 4, 2)
   \<and> tryDirs plusImage 4 4 4 (checkDirs 1) = Some (8, 4, 0)
   \<and> target 4 4 4 (turnLeft (ahead 1)) = (8, 4)"
  by (simp add: plus_eval traceLoop_unfold initialTracer_def)

section \<open>Theorems: the traced path and its budget\<close>

lemma findStart_result:
  assumes "findStart im step y x = Some r"
  shows "\<forall>a b. r = Some (a, b) \<longrightarrow> getVal im a b = 1"
proof -
  note R = findStart.raw_induct
    [where P = "\<lambda>im step y x r. \<forall>a b. r = Some (a, b) \<longrightarrow> getVal im a b = 1"
       and xa = "(((im, step), y), x)" and ya = r, unfolded prod.case]
  show ?thesis
  proof (rule R)
    show "findStart im step y x = Some r"
      by fact
  next
    fix f im step y x r
    assume IH: "\<And>im step y x r. f im step y x = Some r \<Longrightarrow>
                 \<forall>a b. r = Some (a, b) \<longrightarrow> getVal im a b = 1"
      and eq: "(if y < height im
            then if x < width im
                 then if getVal im x y = 1 then Some (Some (x, y))
                      else f im step y (x + step)
                 else f im step (y + step) 0
            else Some None) = Some r"
    show "\<forall>a b. r = Some (a, b) \<longrightarrow> getVal im a b = 1"
      using IH eq by (auto split: if_splits)
  qed
qed

lemma findStart_solid:
  "findStart im step y x = Some (Some (a, b)) \<Longrightarrow> getVal im a b = 1"
  using findStart_result by blast

lemma getVal_1_nonneg: "getVal im a b = 1 \<Longrightarrow> 0 \<le> a \<and> a < width im \<and> 0 \<le> b \<and> b < height im"
  by (auto simp: getVal_def split: if_splits)

lemma traceLoop_step:
  "traceLoop im step sx sy s =
     (case tryDirs im step (cx s) (cy s) (checkDirs (dir s)) of
        None \<Rightarrow> s\<lparr>path := path s @ [(cx s, cy s)], found := False\<rparr>
      | Some (nx, ny, d) \<Rightarrow>
          if (nx \<noteq> sx \<or> ny \<noteq> sy) \<and> maxIter s - 1 > 0
          then traceLoop im step sx sy
                 (s\<lparr>path := path s @ [(cx s, cy s)], cx := nx, cy := ny, dir := d,
                    found := True, maxIter := maxIter s - 1\<rparr>)
          else s\<lparr>path := path s @ [(cx s, cy s)], cx := nx, cy := ny, dir := d,
                 found := True, maxIter := maxIter s - 1\<rparr>)"
  by (subst traceLoop.simps) (simp add: Let_def split: option.splits)

lemma traceLoop_leftLoop:
  "0 < maxIter s \<Longrightarrow> leftLoop im step sx sy s (traceLoop im step sx sy s)"
proof (induction "nat (maxIter s)" arbitrary: s rule: less_induct)
  case less
  show ?case
  proof (cases "tryDirs im step (cx s) (cy s) (checkDirs (dir s))")
    case None
    then have "traceLoop im step sx sy s = s\<lparr>path := path s @ [(cx s, cy s)], found := False\<rparr>"
      by (subst traceLoop_step) simp
    then show ?thesis
      using None less.prems by (simp add: leftLoop_def)
  next
    case (Some c)
    obtain nx ny d where c: "c = (nx, ny, d)"
      by (cases c) auto
    define s2 where "s2 = s\<lparr>path := path s @ [(cx s, cy s)], cx := nx, cy := ny, dir := d,
                    found := True, maxIter := maxIter s - 1\<rparr>"
    show ?thesis
    proof (cases "(nx \<noteq> sx \<or> ny \<noteq> sy) \<and> maxIter s - 1 > 0")
      case True
      then have eq: "traceLoop im step sx sy s = traceLoop im step sx sy s2"
        using Some c by (subst traceLoop_step) (simp add: s2_def)
      have "leftLoop im step sx sy s2 (traceLoop im step sx sy s2)"
        using True less.prems by (intro less.hyps) (simp_all add: s2_def)
      then show ?thesis
        unfolding eq by (auto simp: leftLoop_def s2_def)
    next
      case False
      then have eq: "traceLoop im step sx sy s = s2"
        using Some c by (subst traceLoop_step) (auto simp: s2_def)
      show ?thesis
        unfolding eq using False less.prems by (auto simp: leftLoop_def s2_def)
    qed
  qed
qed

lemma getVerticesFromImage_found:
  assumes "findStart im step 0 0 = Some (Some (sx, sy))"
  shows "getVerticesFromImage im step =
           Some (Some (simplify (path (traceLoop im step sx sy (initialTracer sx sy)))))"
proof -
  have "0 \<le> sx"
    using findStart_solid [OF assms] getVal_1_nonneg by blast
  then show ?thesis
    using assms by (simp add: getVerticesFromImage_def Let_def)
qed

lemma traceLoop_walked:
  "0 < maxIter s \<Longrightarrow> \<exists>n. walked im step sx sy s (traceLoop im step sx sy s) n"
proof (induction "nat (maxIter s)" arbitrary: s rule: less_induct)
  case less
  show ?case
  proof (cases "tryDirs im step (cx s) (cy s) (checkDirs (dir s))")
    case None
    then have eq: "traceLoop im step sx sy s = s\<lparr>path := path s @ [(cx s, cy s)], found := False\<rparr>"
      by (subst traceLoop_step) simp
    have "walked im step sx sy s (traceLoop im step sx sy s) 1"
      unfolding eq using None less.prems by (auto simp: walked_def position_def)
    then show ?thesis ..
  next
    case (Some c)
    obtain nx ny d where c: "c = (nx, ny, d)"
      by (cases c) auto
    define s2 where "s2 = s\<lparr>path := path s @ [(cx s, cy s)], cx := nx, cy := ny, dir := d,
                    found := True, maxIter := maxIter s - 1\<rparr>"
    have w: "walk im step (Suc k) (cx s, cy s, dir s) = walk im step k (nx, ny, d)" for k
      using Some c by simp
    show ?thesis
    proof (cases "(nx \<noteq> sx \<or> ny \<noteq> sy) \<and> maxIter s - 1 > 0")
      case True
      define st where "st = traceLoop im step sx sy s"
      have eq: "st = traceLoop im step sx sy s2"
        unfolding st_def using Some c True by (subst traceLoop_step) (simp add: s2_def)
      have "\<exists>n. walked im step sx sy s2 (traceLoop im step sx sy s2) n"
        using True less.prems by (intro less.hyps) (simp_all add: s2_def)
      then obtain n where n: "walked im step sx sy s2 st n"
        unfolding eq by blast
      have "leftLoop im step sx sy s st"
        unfolding st_def by (rule traceLoop_leftLoop) (rule less.prems)
      then obtain rest where "path st = path s @ (cx s, cy s) # rest"
        by (auto simp: leftLoop_def)
      then have first: "path st ! length (path s) = (cx s, cy s)"
        by simp
      have 1: "0 < Suc n \<and> int (Suc n) \<le> maxIter s"
        using n by (simp add: walked_def s2_def)
      have 2: "length (path st) = length (path s) + Suc n"
        using n by (simp add: walked_def s2_def)
      have 3: "map_option position (walk im step i (cx s, cy s, dir s)) =
                  Some (path st ! (length (path s) + i))" if "i < Suc n" for i
      proof (cases i)
        case 0
        then show ?thesis
          using first by (simp add: position_def)
      next
        case (Suc j)
        then have "j < n"
          using that by simp
        then have "map_option position (walk im step j (nx, ny, d)) =
                     Some (path st ! (length (path s2) + j))"
          using n by (simp add: walked_def s2_def)
        then show ?thesis
          unfolding Suc w by (simp add: s2_def)
      qed
      have 4: "\<exists>c. walk im step k (cx s, cy s, dir s) = Some c \<and> position c \<noteq> (sx, sy)"
        if "0 < k" "k < Suc n" for k
      proof (cases k)
        case 0
        then show ?thesis
          using that by simp
      next
        case (Suc j)
        show ?thesis
        proof (cases "j = 0")
          case True
          then show ?thesis
            unfolding Suc w using \<open>(nx \<noteq> sx \<or> ny \<noteq> sy) \<and> maxIter s - 1 > 0\<close>
            by (auto simp: position_def)
        next
          case False
          then have "0 < j \<and> j < n"
            using that Suc by simp
          then show ?thesis
            unfolding Suc w using n by (simp add: walked_def s2_def)
        qed
      qed
      have 5: "walk im step (Suc n) (cx s, cy s, dir s) =
                 (if found st then Some (cx st, cy st, dir st) else None)"
        unfolding w using n by (simp add: walked_def s2_def)
      have 6: "found st \<longrightarrow> (cx st = sx \<and> cy st = sy) \<or> int (Suc n) = maxIter s"
        using n by (auto simp: walked_def s2_def)
      have "walked im step sx sy s st (Suc n)"
        unfolding walked_def using 1 2 3 4 5 6 by blast
      then show ?thesis
        unfolding st_def ..
    next
      case False
      then have eq: "traceLoop im step sx sy s = s2"
        using Some c by (subst traceLoop_step) (auto simp: s2_def)
      have "walked im step sx sy s (traceLoop im step sx sy s) 1"
        unfolding eq using False less.prems Some c by (auto simp: walked_def position_def s2_def)
      then show ?thesis ..
    qed
  qed
qed

text \<open>
  From the seed: the loop is left after the first pass at which the specification says
  to stop, and after no earlier one.
\<close>

lemma traceLoop_stops:
  fixes im step sx sy
  defines "st \<equiv> traceLoop im step sx sy (initialTracer sx sy)"
  shows "(\<forall>i<length (path st).
            map_option position (walk im step i (sx, sy, 0)) = Some (path st ! i))
     \<and> (\<forall>k. 0 < k \<and> k < length (path st) \<longrightarrow> \<not> stopsAsSpecified im step sx sy k)
     \<and> stopsAsSpecified im step sx sy (length (path st))
     \<and> walk im step (length (path st)) (sx, sy, 0) =
         (if found st then Some (cx st, cy st, dir st) else None)
     \<and> (sx, sy) \<notin> set (tl (path st))"
proof -
  obtain n where "walked im step sx sy (initialTracer sx sy) st n"
    unfolding st_def using traceLoop_walked [of "initialTracer sx sy" im step sx sy]
    by (auto simp: initialTracer_def)
  then have n: "0 < n" "n \<le> 5000" "length (path st) = n"
    and pts: "\<forall>i<n. map_option position (walk im step i (sx, sy, 0)) = Some (path st ! i)"
    and far: "\<forall>k. 0 < k \<and> k < n \<longrightarrow>
                (\<exists>c. walk im step k (sx, sy, 0) = Some c \<and> position c \<noteq> (sx, sy))"
    and fin: "walk im step n (sx, sy, 0) = (if found st then Some (cx st, cy st, dir st) else None)"
    and why: "found st \<longrightarrow> (cx st = sx \<and> cy st = sy) \<or> n = 5000"
    by (simp_all add: walked_def initialTracer_def)
  have a: "\<forall>k. 0 < k \<and> k < n \<longrightarrow> \<not> stopsAsSpecified im step sx sy k"
    using far n(2) by (auto simp: stopsAsSpecified_def)
  have b: "stopsAsSpecified im step sx sy n"
    using fin why by (auto simp: stopsAsSpecified_def position_def)
  have c: "(sx, sy) \<notin> set (tl (path st))"
  proof
    assume "(sx, sy) \<in> set (tl (path st))"
    then obtain i where i: "i < length (tl (path st))" "tl (path st) ! i = (sx, sy)"
      by (auto simp: in_set_conv_nth)
    then have "Suc i < n" "path st ! Suc i = (sx, sy)"
      using n(3) by (simp_all add: nth_tl)
    then show False
      using pts far by (metis option.inject option.simps(9) zero_less_Suc)
  qed
  show ?thesis
    using pts a b c fin unfolding n(3) by blast
qed

text \<open>
  Claim C5: for every image and seed, the trace loop ends (\<open>traceLoop\<close> is a total
  function, its budget the measure). It is left with no solid candidate, or back at the
  seed, or with the budget of 5000 used up, and at the first pass at which one of the
  three holds, no sooner and no later: the points pushed are the positions of the walk
  from the seed, one per pass; the specification's reasons to stop hold after as many
  passes as points were pushed and after no smaller positive number of passes; the
  loop is left where the walk then is; so the seed is pushed once, first, and never
  again. At most 5000 points are pushed, and whichever way the loop is left, budget
  exhaustion included, the path traced so far is simplified and returned.
\<close>

theorem traceLoop_within_budget:
  "path (traceLoop im step sx sy (initialTracer sx sy)) \<noteq> []
   \<and> hd (path (traceLoop im step sx sy (initialTracer sx sy))) = (sx, sy)
   \<and> length (path (traceLoop im step sx sy (initialTracer sx sy))) \<le> 5000
   \<and> ((\<not> found (traceLoop im step sx sy (initialTracer sx sy))
          \<and> tryDirs im step (cx (traceLoop im step sx sy (initialTracer sx sy)))
               (cy (traceLoop im step sx sy (initialTracer sx sy)))
               (checkDirs (dir (traceLoop im step sx sy (initialTracer sx sy)))) = None)
        \<or> (found (traceLoop im step sx sy (initialTracer sx sy))
          \<and> cx (traceLoop im step sx sy (initialTracer sx sy)) = sx
          \<and> cy (traceLoop im step sx sy (initialTracer sx sy)) = sy)
        \<or> (found (traceLoop im step sx sy (initialTracer sx sy))
          \<and> maxIter (traceLoop im step sx sy (initialTracer sx sy)) = 0
          \<and> length (path (traceLoop im step sx sy (initialTracer sx sy))) = 5000))
   \<and> (findStart im step 0 0 = Some (Some (sx, sy)) \<longrightarrow>
        getVerticesFromImage im step =
          Some (Some (simplify (path (traceLoop im step sx sy (initialTracer sx sy))))))
   \<and> (\<forall>i<length (path (traceLoop im step sx sy (initialTracer sx sy))).
         map_option position (walk im step i (sx, sy, 0)) =
           Some (path (traceLoop im step sx sy (initialTracer sx sy)) ! i))
   \<and> (\<forall>k. 0 < k \<and> k < length (path (traceLoop im step sx sy (initialTracer sx sy))) \<longrightarrow>
         \<not> stopsAsSpecified im step sx sy k)
   \<and> stopsAsSpecified im step sx sy (length (path (traceLoop im step sx sy (initialTracer sx sy))))
   \<and> walk im step (length (path (traceLoop im step sx sy (initialTracer sx sy)))) (sx, sy, 0) =
       (if found (traceLoop im step sx sy (initialTracer sx sy))
        then Some (cx (traceLoop im step sx sy (initialTracer sx sy)),
                   cy (traceLoop im step sx sy (initialTracer sx sy)),
                   dir (traceLoop im step sx sy (initialTracer sx sy)))
        else None)
   \<and> (sx, sy) \<notin> set (tl (path (traceLoop im step sx sy (initialTracer sx sy))))"
proof -
  define st where "st = traceLoop im step sx sy (initialTracer sx sy)"
  have "leftLoop im step sx sy (initialTracer sx sy) st"
    unfolding st_def by (rule traceLoop_leftLoop) (simp add: initialTracer_def)
  then have inv:
    "\<exists>rest. path st = (sx, sy) # rest"
    "int (length (path st)) + maxIter st = 5000 + (if found st then 0 else 1)"
    "if found st then 0 \<le> maxIter st else 0 < maxIter st"
    "found st \<or> tryDirs im step (cx st) (cy st) (checkDirs (dir st)) = None"
    "found st \<and> 0 < maxIter st \<longrightarrow> cx st = sx \<and> cy st = sy"
    by (simp_all add: leftLoop_def initialTracer_def)
  have 1: "path st \<noteq> [] \<and> hd (path st) = (sx, sy)"
    using inv(1) by auto
  have 2: "length (path st) \<le> 5000"
    using inv(2,3) by (auto split: if_splits)
  have 3: "(\<not> found st \<and> tryDirs im step (cx st) (cy st) (checkDirs (dir st)) = None)
        \<or> (found st \<and> cx st = sx \<and> cy st = sy)
        \<or> (found st \<and> maxIter st = 0 \<and> length (path st) = 5000)"
  proof (cases "found st")
    case False
    then show ?thesis using inv(4) by simp
  next
    case True
    show ?thesis
    proof (cases "0 < maxIter st")
      case True
      then show ?thesis using \<open>found st\<close> inv(5) by simp
    next
      case False
      then have "maxIter st = 0"
        using \<open>found st\<close> inv(3) by simp
      then show ?thesis
        using \<open>found st\<close> inv(2) by simp
    qed
  qed
  have 4: "findStart im step 0 0 = Some (Some (sx, sy)) \<longrightarrow>
        getVerticesFromImage im step = Some (Some (simplify (path st)))"
    unfolding st_def by (simp add: getVerticesFromImage_found)
  have 5: "(\<forall>i<length (path st).
            map_option position (walk im step i (sx, sy, 0)) = Some (path st ! i))
     \<and> (\<forall>k. 0 < k \<and> k < length (path st) \<longrightarrow> \<not> stopsAsSpecified im step sx sy k)
     \<and> stopsAsSpecified im step sx sy (length (path st))
     \<and> walk im step (length (path st)) (sx, sy, 0) =
         (if found st then Some (cx st, cy st, dir st) else None)
     \<and> (sx, sy) \<notin> set (tl (path st))"
    unfolding st_def by (rule traceLoop_stops)
  show ?thesis
    using 1 2 3 4 5 unfolding st_def by blast
qed


lemmas solid_eval =
  solidImage_def isSolid_maskImage getVal_maskImage width_maskImage height_maskImage
  checkDirs_def neighbour_def Let_def initialTracer_def

section \<open>Theorems: seed point search\<close>

lemma le_div_iff_int:
  assumes "0 < (c::int)"
  shows "(a \<le> b div c) = (a * c \<le> b)"
proof
  assume "a \<le> b div c"
  then have "a * c \<le> (b div c) * c"
    using assms by (intro mult_right_mono) auto
  also have "\<dots> \<le> b"
    using assms by (metis mult.commute pos_mod_sign cancel_div_mod_rules(2) add.right_neutral add_left_mono)
  finally show "a * c \<le> b" .
next
  assume "a * c \<le> b"
  then have "(a * c) div c \<le> b div c"
    using assms by (intro zdiv_mono1)
  then show "a \<le> b div c"
    using assms by simp
qed

lemma sample_count_iff:
  assumes "0 < step"
  shows "(k < nat ((n + step - 1) div step)) = (int k * step < n)"
proof -
  have "(k < nat ((n + step - 1) div step)) = (int k + 1 \<le> (n + step - 1) div step)"
    by linarith
  also have "\<dots> = ((int k + 1) * step \<le> n + step - 1)"
    using assms by (rule le_div_iff_int)
  also have "\<dots> = (int k * step < n)"
  proof -
    have "(int k + 1) * step = int k * step + step"
      by (simp add: algebra_simps)
    then show ?thesis
      by linarith
  qed
  finally show ?thesis .
qed


lemma find_append:
  "find P (xs @ ys) = (case find P xs of None \<Rightarrow> find P ys | Some x \<Rightarrow> Some x)"
  by (induction xs) simp_all

lemma find_map_pair:
  "find P (map (\<lambda>x. (x, y)) xs) = map_option (\<lambda>x. (x, y)) (find (\<lambda>x. P (x, y)) xs)"
  by (induction xs) simp_all

lemma scan_row:
  assumes "0 < step" "y < height im"
  shows "k \<le> n \<Longrightarrow> n = nat ((width im + step - 1) div step) \<Longrightarrow>
    findStart im step y (int k * step) =
      (case find (\<lambda>x. getVal im x y = 1) (map (\<lambda>i. int i * step) [k..<n]) of
         Some x \<Rightarrow> Some (Some (x, y))
       | None \<Rightarrow> findStart im step (y + step) 0)"
proof (induction "n - k" arbitrary: k)
  case 0
  then have "k = n"
    by simp
  then have "\<not> int k * step < width im"
    using sample_count_iff [OF assms(1), of k "width im"] 0 by simp
  then show ?case
    using assms(2) \<open>k = n\<close> by (subst findStart.simps) simp
next
  case (Suc m)
  then have lt: "k < n"
    by simp
  then have inb: "int k * step < width im"
    using sample_count_iff [OF assms(1), of k "width im"] Suc.prems by simp
  have upt: "[k..<n] = k # [Suc k..<n]"
    using lt by (simp add: upt_conv_Cons)
  show ?case
  proof (cases "getVal im (int k * step) y = 1")
    case True
    then show ?thesis
      using assms(2) inb upt by (subst findStart.simps) simp
  next
    case False
    have "findStart im step y (int k * step) = findStart im step y (int (Suc k) * step)"
      using assms(2) inb False by (subst findStart.simps) (simp add: algebra_simps)
    also have "\<dots> = (case find (\<lambda>x. getVal im x y = 1) (map (\<lambda>i. int i * step) [Suc k..<n]) of
         Some x \<Rightarrow> Some (Some (x, y))
       | None \<Rightarrow> findStart im step (y + step) 0)"
      using Suc.hyps(2) lt Suc.prems(2) by (intro Suc.hyps(1)) simp_all
    finally show ?thesis
      using False upt by simp
  qed
qed

lemma scan_rows:
  assumes "0 < step"
  shows "j \<le> n \<Longrightarrow> n = nat ((height im + step - 1) div step) \<Longrightarrow>
    findStart im step (int j * step) 0 =
      Some (find (\<lambda>p. getVal im (fst p) (snd p) = 1)
        (concat (map (\<lambda>y. map (\<lambda>x. (x, y)) (samples step (width im)))
                     (map (\<lambda>i. int i * step) [j..<n]))))"
proof (induction "n - j" arbitrary: j)
  case 0
  then have "j = n"
    by simp
  then have "\<not> int j * step < height im"
    using sample_count_iff [OF assms(1), of j "height im"] 0 by simp
  then show ?case
    using \<open>j = n\<close> by (subst findStart.simps) simp
next
  case (Suc m)
  then have lt: "j < n"
    by simp
  then have inb: "int j * step < height im"
    using sample_count_iff [OF assms(1), of j "height im"] Suc.prems by simp
  have upt: "[j..<n] = j # [Suc j..<n]"
    using lt by (simp add: upt_conv_Cons)
  have row: "findStart im step (int j * step) 0 =
      (case find (\<lambda>x. getVal im x (int j * step) = 1) (samples step (width im)) of
         Some x \<Rightarrow> Some (Some (x, int j * step))
       | None \<Rightarrow> findStart im step (int j * step + step) 0)"
    using scan_row [OF assms(1) inb, of 0 "nat ((width im + step - 1) div step)"]
    by (simp add: samples_def)
  have next_row: "findStart im step (int j * step + step) 0 =
      Some (find (\<lambda>p. getVal im (fst p) (snd p) = 1)
        (concat (map (\<lambda>y. map (\<lambda>x. (x, y)) (samples step (width im)))
                     (map (\<lambda>i. int i * step) [Suc j..<n]))))"
    using Suc.hyps(1) [of "Suc j"] Suc.hyps(2) lt Suc.prems(2) by (simp add: algebra_simps)
  show ?case
    unfolding upt row next_row
    by (simp add: find_append find_map_pair split: option.splits)
qed

lemma findStart_grid:
  assumes "0 < step"
  shows "findStart im step 0 0 =
           Some (find (\<lambda>p. getVal im (fst p) (snd p) = 1) (gridSamples im step))"
  using scan_rows [OF assms, of 0 "nat ((height im + step - 1) div step)" im]
  by (simp add: gridSamples_def samples_def)

lemma set_samples:
  assumes "0 < step"
  shows "(x \<in> set (samples step n)) = (\<exists>i::nat. x = int i * step \<and> x < n)"
proof -
  have "(x \<in> set (samples step n)) =
          (\<exists>i. i < nat ((n + step - 1) div step) \<and> x = int i * step)"
    by (auto simp: samples_def)
  also have "\<dots> = (\<exists>i::nat. int i * step < n \<and> x = int i * step)"
    by (simp only: sample_count_iff [OF assms])
  also have "\<dots> = (\<exists>i::nat. x = int i * step \<and> x < n)"
    by auto
  finally show ?thesis .
qed

lemma set_gridSamples:
  assumes "0 < step"
  shows "((x, y) \<in> set (gridSamples im step)) =
           ((\<exists>i::nat. x = int i * step) \<and> (\<exists>j::nat. y = int j * step)
            \<and> x < width im \<and> y < height im)"
proof -
  have "((x, y) \<in> set (gridSamples im step)) =
          (x \<in> set (samples step (width im)) \<and> y \<in> set (samples step (height im)))"
    by (auto simp: gridSamples_def)
  then show ?thesis
    by (simp only: set_samples [OF assms]) blast
qed


lemma find_SomeD: "find P xs = Some x \<Longrightarrow> P x \<and> x \<in> set xs"
  by (induction xs) (auto split: if_splits)

lemma findStart_total:
  "0 < step \<Longrightarrow> \<exists>r. findStart im step 0 0 = Some r"
  by (simp add: findStart_grid)

lemma getVerticesFromImage_total:
  assumes "0 < step"
  shows "\<exists>r. getVerticesFromImage im step = Some r"
proof (cases "find (\<lambda>p. getVal im (fst p) (snd p) = 1) (gridSamples im step)")
  case None
  then show ?thesis
    using assms by (simp add: getVerticesFromImage_def findStart_grid)
next
  case (Some p)
  then have "findStart im step 0 0 = Some (Some (fst p, snd p))"
    using assms by (simp add: findStart_grid)
  then show ?thesis
    using getVerticesFromImage_found [of im step "fst p" "snd p"] by blast
qed

text \<open>
  Claim C3: with a positive sampling step, extraction of an image none of whose sampled
  coordinates is solid returns, and returns \<^verbatim>\<open>null\<close> (\<open>Some None\<close>: a value, not a
  failure); and \<^verbatim>\<open>null\<close> is returned for no other image.
\<close>

theorem getVerticesFromImage_null_iff:
  assumes "0 < step"
  shows "(getVerticesFromImage im step = Some None) =
           (\<forall>i j::nat. getVal im (int i * step) (int j * step) \<noteq> 1)"
proof (cases "find (\<lambda>p. getVal im (fst p) (snd p) = 1) (gridSamples im step)")
  case None
  have "getVal im (int i * step) (int j * step) \<noteq> 1" for i j :: nat
  proof (cases "int i * step < width im \<and> int j * step < height im")
    case True
    then have "(int i * step, int j * step) \<in> set (gridSamples im step)"
      using set_gridSamples [OF assms] by blast
    then show ?thesis
      using None by (auto simp: find_None_iff)
  next
    case False
    then show ?thesis
      by (auto simp: getVal_def)
  qed
  moreover have "getVerticesFromImage im step = Some None"
    using None assms by (simp add: getVerticesFromImage_def findStart_grid)
  ultimately show ?thesis
    by simp
next
  case (Some p)
  then have seed: "findStart im step 0 0 = Some (Some (fst p, snd p))"
    using assms by (simp add: findStart_grid)
  have "p \<in> set (gridSamples im step)" "getVal im (fst p) (snd p) = 1"
    using find_SomeD [OF Some] by simp_all
  then obtain i j :: nat where "fst p = int i * step" "snd p = int j * step"
    using set_gridSamples [OF assms, of "fst p" "snd p" im] by auto
  then have "\<exists>i j::nat. getVal im (int i * step) (int j * step) = 1"
    using \<open>getVal im (fst p) (snd p) = 1\<close> by metis
  moreover have "getVerticesFromImage im step \<noteq> Some None"
    using getVerticesFromImage_found [OF seed] by simp
  ultimately show ?thesis
    by blast
qed

theorem getVerticesFromImage_null_iff_witness:
  "getVerticesFromImage (transparentImage 32 32) 4 = Some None
   \<and> getVerticesFromImage (solidImage 8 8) 4 \<noteq> Some None"
proof -
  have "\<exists>i j::nat. getVal (solidImage 8 8) (int i * 4) (int j * 4) = 1"
    by (intro exI [of _ 0]) (simp add: solidImage_def getVal_maskImage)
  moreover have "\<forall>i j::nat. getVal (transparentImage 32 32) (int i * 4) (int j * 4) \<noteq> 1"
    by (simp add: transparentImage_def getVal_maskImage)
  ultimately show ?thesis
    using getVerticesFromImage_null_iff [of 4 "transparentImage 32 32"]
      getVerticesFromImage_null_iff [of 4 "solidImage 8 8"]
    by simp
qed


section \<open>Theorems: the points of a result\<close>

lemma tryDirs_Some:
  "tryDirs im step x y ds = Some (nx, ny, d) \<Longrightarrow>
     isSolid im nx ny \<and> (nx, ny) = neighbour step x y d \<and> d \<in> set ds"
  by (induction ds) (auto simp: Let_def split: prod.splits if_splits)

lemma neighbour_dvd:
  "step dvd x \<Longrightarrow> step dvd y \<Longrightarrow> (nx, ny) = neighbour step x y d \<Longrightarrow> step dvd nx \<and> step dvd ny"
  by (auto simp: neighbour_def Let_def split: if_splits)

lemma tryDirs_onGrid:
  assumes "tryDirs im step x y ds = Some (nx, ny, d)" "onGrid im step (x, y)"
  shows "onGrid im step (nx, ny)"
proof -
  have solid: "isSolid im nx ny" and nb: "(nx, ny) = neighbour step x y d"
    using tryDirs_Some [OF assms(1)] by simp_all
  have "step dvd x" "step dvd y"
    using assms(2) by (simp_all add: onGrid_def)
  then have "step dvd nx \<and> step dvd ny"
    using nb by (rule neighbour_dvd)
  then show ?thesis
    using solid by (simp add: onGrid_def)
qed

lemma traceLoop_onGrid:
  "onGrid im step (cx s, cy s) \<Longrightarrow> \<forall>p\<in>set (path s). onGrid im step p \<Longrightarrow>
     \<forall>p\<in>set (path (traceLoop im step sx sy s)). onGrid im step p"
proof (induction "nat (maxIter s)" arbitrary: s rule: less_induct)
  case less
  show ?case
  proof (cases "tryDirs im step (cx s) (cy s) (checkDirs (dir s))")
    case None
    then have "traceLoop im step sx sy s = s\<lparr>path := path s @ [(cx s, cy s)], found := False\<rparr>"
      by (subst traceLoop_step) simp
    then show ?thesis
      using less.prems by simp
  next
    case (Some c)
    obtain nx ny d where c: "c = (nx, ny, d)"
      by (cases c) auto
    define s2 where "s2 = s\<lparr>path := path s @ [(cx s, cy s)], cx := nx, cy := ny, dir := d,
                    found := True, maxIter := maxIter s - 1\<rparr>"
    have next_ok: "onGrid im step (cx s2, cy s2)"
      using tryDirs_onGrid [of im step "cx s" "cy s" "checkDirs (dir s)" nx ny d] Some c less.prems(1)
      by (simp add: s2_def)
    have path_ok: "\<forall>p\<in>set (path s2). onGrid im step p"
      using less.prems by (simp add: s2_def)
    show ?thesis
    proof (cases "(nx \<noteq> sx \<or> ny \<noteq> sy) \<and> maxIter s - 1 > 0")
      case True
      then have eq: "traceLoop im step sx sy s = traceLoop im step sx sy s2"
        using Some c by (subst traceLoop_step) (simp add: s2_def)
      have "nat (maxIter s2) < nat (maxIter s)"
        using True by (simp add: s2_def)
      then show ?thesis
        unfolding eq using next_ok path_ok by (rule less.hyps)
    next
      case False
      then have eq: "traceLoop im step sx sy s = s2"
        using Some c by (subst traceLoop_step) (auto simp: s2_def)
      show ?thesis
        unfolding eq by (rule path_ok)
    qed
  qed
qed

lemma traceLoop_path_first:
  "path (traceLoop im step sx sy (initialTracer sx sy)) \<noteq> []
   \<and> hd (path (traceLoop im step sx sy (initialTracer sx sy))) = (sx, sy)"
proof -
  have "leftLoop im step sx sy (initialTracer sx sy) (traceLoop im step sx sy (initialTracer sx sy))"
    by (rule traceLoop_leftLoop) (simp add: initialTracer_def)
  then show ?thesis
    by (auto simp: leftLoop_def initialTracer_def)
qed

lemma set_keepFar: "set (keepFar k ps) \<subseteq> set ps"
  by (induction ps arbitrary: k) auto

lemma set_simplify: "set (simplify pth) \<subseteq> set pth"
  using set_keepFar by (cases pth) (auto simp: simplify_eq_spec simplifyAsSpecified_def)

lemma hd_simplify: "pth \<noteq> [] \<Longrightarrow> simplify pth \<noteq> [] \<and> hd (simplify pth) = hd pth"
  by (cases pth) (simp_all add: simplify_eq_spec simplifyAsSpecified_def)

lemma dvd_nonneg_multiple:
  assumes "0 < step" "step dvd x" "0 \<le> (x::int)"
  shows "\<exists>i::nat. x = int i * step"
proof -
  obtain k where k: "x = step * k"
    using assms(2) by (auto simp: dvd_def)
  then have "0 \<le> k"
    using assms(1,3) by (simp add: zero_le_mult_iff)
  then have "x = int (nat k) * step"
    using k by simp
  then show ?thesis ..
qed

text \<open>
  Claim C10: with a positive sampling step, every result of extraction other than
  \<^verbatim>\<open>null\<close> is a non-empty sequence whose first point is the seed, the first solid sample
  of the row-major grid scan, and each of its points has coordinates that are
  non-negative multiples of the sampling step inside \<open>[0, width) \<times> [0, height)\<close>.
\<close>

theorem getVerticesFromImage_points:
  assumes "0 < step" "getVerticesFromImage im step = Some (Some pts)"
  shows "pts \<noteq> []
         \<and> findStart im step 0 0 = Some (Some (hd pts))
         \<and> find (\<lambda>p. getVal im (fst p) (snd p) = 1) (gridSamples im step) = Some (hd pts)
         \<and> (\<forall>p\<in>set pts. (\<exists>i::nat. fst p = int i * step) \<and> (\<exists>j::nat. snd p = int j * step)
               \<and> 0 \<le> fst p \<and> fst p < width im \<and> 0 \<le> snd p \<and> snd p < height im)"
proof -
  obtain seed where found: "find (\<lambda>p. getVal im (fst p) (snd p) = 1) (gridSamples im step) = Some seed"
    using assms by (cases "find (\<lambda>p. getVal im (fst p) (snd p) = 1) (gridSamples im step)")
      (simp_all add: getVerticesFromImage_def findStart_grid)
  obtain sx sy where seed: "seed = (sx, sy)"
    by (cases seed) auto
  have start: "findStart im step 0 0 = Some (Some (sx, sy))"
    using found seed assms(1) by (simp add: findStart_grid)
  define st where "st = traceLoop im step sx sy (initialTracer sx sy)"
  have pts: "pts = simplify (path st)"
    using getVerticesFromImage_found [OF start] assms(2) by (simp add: st_def)
  have first: "path st \<noteq> [] \<and> hd (path st) = (sx, sy)"
    unfolding st_def by (rule traceLoop_path_first)
  have hd_pts: "pts \<noteq> [] \<and> hd pts = (sx, sy)"
    using first hd_simplify [of "path st"] by (simp add: pts)
  have "(sx, sy) \<in> set (gridSamples im step)" "getVal im sx sy = 1"
    using find_SomeD [OF found] seed by simp_all
  then have "onGrid im step (sx, sy)"
    using set_gridSamples [OF assms(1), of sx sy im] by (auto simp: onGrid_def isSolid_def)
  then have "\<forall>p\<in>set (path st). onGrid im step p"
    unfolding st_def by (intro traceLoop_onGrid) (simp_all add: initialTracer_def)
  then have good: "\<forall>p\<in>set pts. onGrid im step p"
    using set_simplify [of "path st"] by (auto simp: pts)
  have "(\<exists>i::nat. fst p = int i * step) \<and> (\<exists>j::nat. snd p = int j * step)
        \<and> 0 \<le> fst p \<and> fst p < width im \<and> 0 \<le> snd p \<and> snd p < height im"
    if "p \<in> set pts" for p
  proof -
    have g: "getVal im (fst p) (snd p) = 1" "step dvd fst p" "step dvd snd p"
      using good that by (auto simp: onGrid_def isSolid_def)
    have b: "0 \<le> fst p \<and> fst p < width im \<and> 0 \<le> snd p \<and> snd p < height im"
      using g(1) by (rule getVal_1_nonneg)
    show ?thesis
      using b dvd_nonneg_multiple [OF assms(1) g(2)] dvd_nonneg_multiple [OF assms(1) g(3)]
      by simp
  qed
  then show ?thesis
    using hd_pts start found seed by simp
qed

theorem getVerticesFromImage_points_witness:
  "getVerticesFromImage (solidImage 20 20) 4 = Some (Some [(0, 0), (16, 0), (16, 16), (0, 16)])
   \<and> findStart (solidImage 20 20) 4 0 0 = Some (Some (0, 0))
   \<and> find (\<lambda>p. getVal (solidImage 20 20) (fst p) (snd p) = 1) (gridSamples (solidImage 20 20) 4)
       = Some (0, 0)"
proof -
  have seed: "findStart (solidImage 20 20) 4 0 0 = Some (Some (0, 0))"
    by (simp add: findStart.simps solid_eval)
  have "path (traceLoop (solidImage 20 20) 4 0 0 (initialTracer 0 0)) =
      [(0, 0), (4, 0), (8, 0), (12, 0), (16, 0), (16, 4), (16, 8), (16, 12), (16, 16),
       (12, 16), (8, 16), (4, 16), (0, 16), (0, 12), (0, 8), (0, 4)]"
    by (simp add: traceLoop_unfold solid_eval)
  then have "getVerticesFromImage (solidImage 20 20) 4 = Some (Some [(0, 0), (16, 0), (16, 16), (0, 16)])"
    using getVerticesFromImage_found [OF seed] by (simp add: simplify_def hypot_gt_15)
  then show ?thesis
    using getVerticesFromImage_points [of 4 "solidImage 20 20" "[(0, 0), (16, 0), (16, 16), (0, 16)]"]
    by simp
qed

section \<open>Theorems: spawning bodies\<close>

lemma createBody_builtBody:
  "createBody builds x y a e g =
     g\<lparr>currentBody := Some (builtBody builds x y a e), isDropping := False,
       world := world g @ [builtBody builds x y a e]\<rparr>"
  by (simp add: createBody_def builtBody_def Let_def)

lemma extraction_returns: "\<exists>raw. getVerticesFromImage im 4 = Some raw"
  by (rule getVerticesFromImage_total) simp

lemma onload_stores:
  assumes "\<not> gameOver g" "getVerticesFromImage im 4 = Some raw"
  shows "onload builds a im g =
           Some (createBody builds (innerWidth g / 2) 100 a (storedEntry im raw)
                   (g\<lparr>extractions := extractions g @ [a],
                      vertexCache := (vertexCache g)(a \<mapsto> storedEntry im raw)\<rparr>))"
  using assms by (simp add: onload_def storedEntry_def Let_def)


lemma spawn_cached:
  "\<not> gameOver g \<Longrightarrow> vertexCache g a = Some e \<Longrightarrow>
     spawnNewBody builds a g = createBody builds (innerWidth g / 2) 100 a e g"
  by (simp add: spawnNewBody_def)







lemma extract_solid20:
  "getVerticesFromImage (solidImage 20 20) 4 = Some (Some [(0, 0), (16, 0), (16, 16), (0, 16)])"
proof -
  have seed: "findStart (solidImage 20 20) 4 0 0 = Some (Some (0, 0))"
    by (simp add: findStart.simps solid_eval)
  have "path (traceLoop (solidImage 20 20) 4 0 0 (initialTracer 0 0)) =
      [(0, 0), (4, 0), (8, 0), (12, 0), (16, 0), (16, 4), (16, 8), (16, 12), (16, 16),
       (12, 16), (8, 16), (4, 16), (0, 16), (0, 12), (0, 8), (0, 4)]"
    by (simp add: traceLoop_unfold solid_eval)
  then show ?thesis
    using getVerticesFromImage_found [OF seed] by (simp add: simplify_def hypot_gt_15)
qed

lemma extract_dot: "getVerticesFromImage dotImage 4 = Some (Some [(0, 0)])"
proof -
  have seed: "findStart dotImage 4 0 0 = Some (Some (0, 0))"
    by (simp add: findStart.simps dotImage_def getVal_maskImage width_maskImage height_maskImage)
  have "path (traceLoop dotImage 4 0 0 (initialTracer 0 0)) = [(0, 0)]"
    by (simp add: traceLoop_unfold dotImage_def isSolid_maskImage checkDirs_def neighbour_def
        Let_def initialTracer_def)
  then show ?thesis
    using getVerticesFromImage_found [OF seed] by (simp add: simplify_def)
qed

lemma extract_transparent: "getVerticesFromImage (transparentImage 32 32) 4 = Some None"
proof -
  have "find (\<lambda>p. getVal (transparentImage 32 32) (fst p) (snd p) = 1)
          (gridSamples (transparentImage 32 32) 4) = None"
    by (simp add: find_None_iff transparentImage_def getVal_maskImage)
  then show ?thesis
    by (simp add: getVerticesFromImage_def findStart_grid)
qed

text \<open>
  Claim C4: for every image of positive dimensions loaded while the game is running, the
  handler returns with a body built: the fallback rectangle of width
  \<open>width * scale\<close> and height \<open>height * scale\<close>, or the polygon of a cached vertex list
  of at least three points that the engine accepted. Whenever extraction gives
  \<^verbatim>\<open>null\<close> or fewer than three points, the asset is cached with \<^verbatim>\<open>vertices: null\<close> and
  the body is the fallback rectangle.
\<close>

theorem onload_fallback_rectangle:
  assumes "\<not> gameOver g" "0 < width im" "0 < height im"
  shows "let sc = min (120 / real_of_int (width im)) (120 / real_of_int (height im));
             sp = \<lparr>texture = a, xScale = sc, yScale = sc\<rparr>;
             fallback = Rectangle (innerWidth g / 2) 100
                          (real_of_int (width im) * sc) (real_of_int (height im) * sc) sp
         in \<exists>raw g' e b. getVerticesFromImage im 4 = Some raw
           \<and> onload builds a im g = Some g'
           \<and> vertexCache g' a = Some e \<and> currentBody g' = Some b
           \<and> (b = fallback
                \<or> (\<exists>vs. b = FromVertices (innerWidth g / 2) 100 vs sp
                       \<and> vertices e = Some vs \<and> builds vs \<and> 3 \<le> length vs))
           \<and> ((case raw of None \<Rightarrow> True | Some pts \<Rightarrow> length pts < 3) \<longrightarrow>
                 vertices e = None \<and> b = fallback)"
proof -
  obtain raw where raw: "getVerticesFromImage im 4 = Some raw"
    using extraction_returns by blast
  define g' where "g' = createBody builds (innerWidth g / 2) 100 a (storedEntry im raw)
                   (g\<lparr>extractions := extractions g @ [a],
                      vertexCache := (vertexCache g)(a \<mapsto> storedEntry im raw)\<rparr>)"
  have on: "onload builds a im g = Some g'"
    unfolding g'_def using assms(1) raw by (rule onload_stores)
  have cache: "vertexCache g' a = Some (storedEntry im raw)"
    and cur: "currentBody g' = Some (builtBody builds (innerWidth g / 2) 100 a (storedEntry im raw))"
    by (simp_all add: g'_def createBody_builtBody)
  show ?thesis
    using raw on cache cur
    by (cases raw) (auto simp: storedEntry_def builtBody_def Let_def)
qed

theorem onload_fallback_rectangle_witness:
  "map_option currentBody (onload (\<lambda>vs. True) ''assets/1.png'' dotImage (newGame 800)) =
     Some (Some (Rectangle 400 100 120 120 \<lparr>texture = ''assets/1.png'', xScale = 15, yScale = 15\<rparr>))
   \<and> map_option (\<lambda>g. map_option vertices (vertexCache g ''assets/1.png''))
       (onload (\<lambda>vs. True) ''assets/1.png'' dotImage (newGame 800)) = Some (Some None)
   \<and> map_option currentBody
       (onload (\<lambda>vs. True) ''assets/1.png'' (transparentImage 32 32) (newGame 800)) =
     Some (Some (Rectangle 400 100 120 120 \<lparr>texture = ''assets/1.png'', xScale = 3.75, yScale = 3.75\<rparr>))"
proof -
  have g: "\<not> gameOver (newGame 800)" "innerWidth (newGame 800) = 800"
    by (simp_all add: newGame_def)
  have d: "0 < width dotImage" "0 < height dotImage"
    "real_of_int (width dotImage) = 8" "real_of_int (height dotImage) = 8"
    by (simp_all add: dotImage_def width_maskImage height_maskImage)
  have t: "0 < width (transparentImage 32 32)" "0 < height (transparentImage 32 32)"
    "real_of_int (width (transparentImage 32 32)) = 32"
    "real_of_int (height (transparentImage 32 32)) = 32"
    by (simp_all add: transparentImage_def width_maskImage height_maskImage)
  show ?thesis
    using onload_fallback_rectangle [OF g(1) d(1,2), where builds = "\<lambda>vs. True" and a = "''assets/1.png''"]
      onload_fallback_rectangle [OF g(1) t(1,2), where builds = "\<lambda>vs. True" and a = "''assets/1.png''"]
    by (auto simp: Let_def g(2) d(3,4) t(3,4) extract_dot extract_transparent)
qed


text \<open>
  Claim C8: for every image of positive dimensions loaded while the game is running, the
  cached scale is \<open>min (120 / width) (120 / height)\<close>; cached vertices are the extracted
  points with both coordinates multiplied by it; the sprite of the body built has
  \<open>xScale\<close> and \<open>yScale\<close> equal to it; a fallback rectangle measures \<open>width * scale\<close> by
  \<open>height * scale\<close>; and a later spawn of the cached asset uses the same factor.
\<close>

theorem onload_uniform_scale:
  assumes "\<not> gameOver g" "0 < width im" "0 < height im"
  shows "\<exists>raw g' e b. getVerticesFromImage im 4 = Some raw
           \<and> onload builds a im g = Some g'
           \<and> vertexCache g' a = Some e \<and> currentBody g' = Some b
           \<and> scale e = min (120 / real_of_int (width im)) (120 / real_of_int (height im))
           \<and> (\<forall>vs. vertices e = Some vs \<longrightarrow>
                 (\<exists>pts. raw = Some pts
                    \<and> vs = map (\<lambda>v. (real_of_int (fst v) * scale e, real_of_int (snd v) * scale e)) pts))
           \<and> xScale (spriteOf b) = scale e \<and> yScale (spriteOf b) = scale e
           \<and> (\<forall>x y w h sp. b = Rectangle x y w h sp \<longrightarrow>
                 w = real_of_int (width im) * scale e \<and> h = real_of_int (height im) * scale e)
           \<and> (\<forall>x y vs sp. b = FromVertices x y vs sp \<longrightarrow> vertices e = Some vs)
           \<and> (\<exists>b'. currentBody (spawnNewBody builds a g') = Some b'
                 \<and> xScale (spriteOf b') = scale e \<and> yScale (spriteOf b') = scale e
                 \<and> (\<forall>x y w h sp. b' = Rectangle x y w h sp \<longrightarrow>
                       w = real_of_int (width im) * scale e \<and> h = real_of_int (height im) * scale e))"
proof -
  obtain raw where raw: "getVerticesFromImage im 4 = Some raw"
    using extraction_returns by blast
  define e where "e = storedEntry im raw"
  define g' where "g' = createBody builds (innerWidth g / 2) 100 a e
                   (g\<lparr>extractions := extractions g @ [a], vertexCache := (vertexCache g)(a \<mapsto> e)\<rparr>)"
  define b where "b = builtBody builds (innerWidth g / 2) 100 a e"
  have on: "onload builds a im g = Some g'"
    unfolding g'_def e_def using assms(1) raw by (rule onload_stores)
  have g': "vertexCache g' a = Some e" "currentBody g' = Some b" "\<not> gameOver g'"
    "innerWidth g' = innerWidth g"
    using assms(1) by (simp_all add: g'_def b_def createBody_builtBody)
  have e: "scale e = min (120 / real_of_int (width im)) (120 / real_of_int (height im))"
    "img e = im"
    "\<forall>vs. vertices e = Some vs \<longrightarrow>
        (\<exists>pts. raw = Some pts
           \<and> vs = map (\<lambda>v. (real_of_int (fst v) * scale e, real_of_int (snd v) * scale e)) pts)"
    by (auto simp: e_def storedEntry_def Let_def split: if_splits)
  have b: "xScale (spriteOf b) = scale e \<and> yScale (spriteOf b) = scale e"
    "\<forall>x y w h sp. b = Rectangle x y w h sp \<longrightarrow>
        w = real_of_int (width im) * scale e \<and> h = real_of_int (height im) * scale e"
    "\<forall>x y vs sp. b = FromVertices x y vs sp \<longrightarrow> vertices e = Some vs"
    using e(2) by (auto simp: b_def builtBody_def Let_def split: option.splits if_splits)
  have again: "currentBody (spawnNewBody builds a g') = Some b"
    using g' by (simp add: spawn_cached createBody_builtBody b_def)
  show ?thesis
    using raw on g'(1,2) e(1,3) b again by blast
qed

theorem onload_uniform_scale_witness:
  "map_option currentBody (onload (\<lambda>vs. True) ''assets/1.png'' (solidImage 20 20) (newGame 800)) =
     Some (Some (FromVertices 400 100 [(0, 0), (96, 0), (96, 96), (0, 96)]
                  \<lparr>texture = ''assets/1.png'', xScale = 6, yScale = 6\<rparr>))
   \<and> map_option (\<lambda>g. map_option scale (vertexCache g ''assets/1.png''))
       (onload (\<lambda>vs. True) ''assets/1.png'' (solidImage 20 20) (newGame 800)) = Some (Some 6)"
proof -
  have g: "\<not> gameOver (newGame 800)" "innerWidth (newGame 800) = 800"
    by (simp_all add: newGame_def)
  have d: "0 < width (solidImage 20 20)" "0 < height (solidImage 20 20)"
    "real_of_int (width (solidImage 20 20)) = 20" "real_of_int (height (solidImage 20 20)) = 20"
    by (simp_all add: solidImage_def width_maskImage height_maskImage)
  have "map_option currentBody (onload (\<lambda>vs. True) ''assets/1.png'' (solidImage 20 20) (newGame 800)) =
     Some (Some (FromVertices 400 100 [(0, 0), (96, 0), (96, 96), (0, 96)]
                  \<lparr>texture = ''assets/1.png'', xScale = 6, yScale = 6\<rparr>))"
    by (simp add: onload_def createBody_def Let_def g d(3,4) extract_solid20)
  then show ?thesis
    using onload_uniform_scale [OF g(1) d(1,2), where builds = "\<lambda>vs. True" and a = "''assets/1.png''"]
    by (auto simp: d(3,4))
qed





section \<open>Theorems: the contour of a rectangle\<close>

lemma neighbour_grid:
  "neighbour s (ox + i * s) (oy + j * s) c = (ox + (i + dx c) * s, oy + (j + dy c) * s)"
  by (simp add: neighbour_def dx_def dy_def Let_def algebra_simps)

lemma tryDirs_grid:
  assumes "gridRect im s ox oy m n"
  shows "tryDirs im s (ox + i * s) (oy + j * s) ds =
           map_option (\<lambda>c. (ox + (i + dx c) * s, oy + (j + dy c) * s, c))
             (find (\<lambda>c. inside m n (i + dx c) (j + dy c)) ds)"
proof (induction ds)
  case Nil
  then show ?case by simp
next
  case (Cons c ds)
  have "isSolid im (ox + (i + dx c) * s) (oy + (j + dy c) * s) = inside m n (i + dx c) (j + dy c)"
    using assms by (simp add: gridRect_def)
  then show ?case
    using Cons by (simp add: neighbour_grid)
qed

lemma trace_run:
  assumes moves: "\<And>i. i < k \<Longrightarrow>
      tryDirs im s (fst (pt i)) (snd (pt i)) (checkDirs (if i = 0 then d0 else D)) =
        Some (fst (pt (Suc i)), snd (pt (Suc i)), D)"
    and notseed: "\<And>i. 0 < i \<Longrightarrow> i \<le> k \<Longrightarrow> pt i \<noteq> (sx, sy)"
    and budget: "int k < M"
  shows "traceLoop im s sx sy
           \<lparr>cx = fst (pt 0), cy = snd (pt 0), dir = d0, maxIter = M, path = P, found = f\<rparr> =
         traceLoop im s sx sy
           \<lparr>cx = fst (pt k), cy = snd (pt k), dir = (if k = 0 then d0 else D),
            maxIter = M - int k, path = P @ map pt [0..<k], found = (if k = 0 then f else True)\<rparr>"
  using assms
proof (induction k arbitrary: pt d0 M P f)
  case 0
  then show ?case by simp
next
  case (Suc k)
  have first: "tryDirs im s (fst (pt 0)) (snd (pt 0)) (checkDirs d0) =
                 Some (fst (pt 1), snd (pt 1), D)"
    using Suc.prems(1) [of 0] by simp
  have ne: "pt 1 \<noteq> (sx, sy)"
    using Suc.prems(2) [of 1] by simp
  then have ne': "fst (pt 1) \<noteq> sx \<or> snd (pt 1) \<noteq> sy"
    by (cases "pt 1") auto
  have "traceLoop im s sx sy
           \<lparr>cx = fst (pt 0), cy = snd (pt 0), dir = d0, maxIter = M, path = P, found = f\<rparr> =
        traceLoop im s sx sy
           \<lparr>cx = fst (pt 1), cy = snd (pt 1), dir = D, maxIter = M - 1,
            path = P @ [pt 0], found = True\<rparr>"
    using first ne' Suc.prems(3) by (subst traceLoop_unfold) auto
  also have "\<dots> = traceLoop im s sx sy
           \<lparr>cx = fst ((pt \<circ> Suc) k), cy = snd ((pt \<circ> Suc) k), dir = (if k = 0 then D else D),
            maxIter = (M - 1) - int k, path = (P @ [pt 0]) @ map (pt \<circ> Suc) [0..<k],
            found = (if k = 0 then True else True)\<rparr>"
  proof -
    have m: "\<And>i. i < k \<Longrightarrow>
      tryDirs im s (fst ((pt \<circ> Suc) i)) (snd ((pt \<circ> Suc) i)) (checkDirs (if i = 0 then D else D)) =
        Some (fst ((pt \<circ> Suc) (Suc i)), snd ((pt \<circ> Suc) (Suc i)), D)"
    proof -
      fix i assume "i < k"
      then show "tryDirs im s (fst ((pt \<circ> Suc) i)) (snd ((pt \<circ> Suc) i))
            (checkDirs (if i = 0 then D else D)) =
          Some (fst ((pt \<circ> Suc) (Suc i)), snd ((pt \<circ> Suc) (Suc i)), D)"
        using Suc.prems(1) [of "Suc i"] by simp
    qed
    have n: "\<And>i. 0 < i \<Longrightarrow> i \<le> k \<Longrightarrow> (pt \<circ> Suc) i \<noteq> (sx, sy)"
      using Suc.prems(2) by simp
    have b: "int k < M - 1"
      using Suc.prems(3) by simp
    show ?thesis
      using Suc.IH [of "pt \<circ> Suc" D "M - 1" "P @ [pt 0]" True, OF m n b] by (simp add: comp_def)
  qed
  also have "\<dots> = traceLoop im s sx sy
           \<lparr>cx = fst (pt (Suc k)), cy = snd (pt (Suc k)), dir = (if Suc k = 0 then d0 else D),
            maxIter = M - int (Suc k), path = P @ map pt [0..<Suc k],
            found = (if Suc k = 0 then f else True)\<rparr>"
    by (simp add: map_upt_Suc comp_def algebra_simps del: upt_Suc)
  finally show ?case .
qed


lemmas grid_eval = checkDirs_def inside_def dx_def dy_def

lemma trace_top:
  assumes G: "gridRect im s ox oy m n" and s: "0 < s" and m: "0 < m" and bd: "int m < M"
  shows "traceLoop im s ox oy \<lparr>cx = ox, cy = oy, dir = 0, maxIter = M, path = P, found = f\<rparr> =
         traceLoop im s ox oy
           \<lparr>cx = ox + int m * s, cy = oy, dir = 0, maxIter = M - int m,
            path = P @ map (\<lambda>i. (ox + int i * s, oy)) [0..<m], found = True\<rparr>"
proof -
  define pt where "pt = (\<lambda>i::nat. (ox + int i * s, oy))"
  have mv: "tryDirs im s (fst (pt i)) (snd (pt i)) (checkDirs (if i = 0 then 0 else 0)) =
              Some (fst (pt (Suc i)), snd (pt (Suc i)), 0)" if "i < m" for i
    using tryDirs_grid [OF G, of "int i" 0 "checkDirs 0"] that
    by (simp add: pt_def grid_eval algebra_simps)
  have ns: "pt i \<noteq> (ox, oy)" if "0 < i" "i \<le> m" for i
    using that s by (simp add: pt_def)
  show ?thesis
    using trace_run [of m im s pt 0 0 ox oy M P f, OF mv ns bd] m
    by (simp add: pt_def)
qed

lemma trace_right:
  assumes G: "gridRect im s ox oy m n" and s: "0 < s" and m: "0 < m" and n: "0 < n"
    and bd: "int n < M"
  shows "traceLoop im s ox oy
           \<lparr>cx = ox + int m * s, cy = oy, dir = 0, maxIter = M, path = P, found = f\<rparr> =
         traceLoop im s ox oy
           \<lparr>cx = ox + int m * s, cy = oy + int n * s, dir = 1, maxIter = M - int n,
            path = P @ map (\<lambda>j. (ox + int m * s, oy + int j * s)) [0..<n], found = True\<rparr>"
proof -
  define pt where "pt = (\<lambda>j::nat. (ox + int m * s, oy + int j * s))"
  have mv: "tryDirs im s (fst (pt j)) (snd (pt j)) (checkDirs (if j = 0 then 0 else 1)) =
              Some (fst (pt (Suc j)), snd (pt (Suc j)), 1)" if "j < n" for j
    using tryDirs_grid [OF G, of "int m" "int j" "checkDirs (if j = 0 then 0 else 1)"] that
    by (simp add: pt_def grid_eval algebra_simps)
  have ns: "pt j \<noteq> (ox, oy)" if "0 < j" "j \<le> n" for j
    using that s m by (simp add: pt_def)
  show ?thesis
    using trace_run [of n im s pt 0 1 ox oy M P f, OF mv ns bd] n
    by (simp add: pt_def)
qed

lemma trace_bottom:
  assumes G: "gridRect im s ox oy m n" and s: "0 < s" and m: "0 < m" and n: "0 < n"
    and bd: "int m < M"
  shows "traceLoop im s ox oy
           \<lparr>cx = ox + int m * s, cy = oy + int n * s, dir = 1, maxIter = M, path = P, found = f\<rparr> =
         traceLoop im s ox oy
           \<lparr>cx = ox, cy = oy + int n * s, dir = 2, maxIter = M - int m,
            path = P @ map (\<lambda>i. (ox + (int m - int i) * s, oy + int n * s)) [0..<m], found = True\<rparr>"
proof -
  define pt where "pt = (\<lambda>i::nat. (ox + (int m - int i) * s, oy + int n * s))"
  have mv: "tryDirs im s (fst (pt i)) (snd (pt i)) (checkDirs (if i = 0 then 1 else 2)) =
              Some (fst (pt (Suc i)), snd (pt (Suc i)), 2)" if "i < m" for i
    using tryDirs_grid [OF G, of "int m - int i" "int n" "checkDirs (if i = 0 then 1 else 2)"] that
    by (simp add: pt_def grid_eval algebra_simps)
  have ns: "pt i \<noteq> (ox, oy)" if "0 < i" "i \<le> m" for i
    using that s n by (simp add: pt_def)
  show ?thesis
    using trace_run [of m im s pt 1 2 ox oy M P f, OF mv ns bd] m
    by (simp add: pt_def)
qed

lemma trace_left:
  assumes G: "gridRect im s ox oy m n" and s: "0 < s" and m: "0 < m" and n: "0 < n"
    and bd: "int n \<le> M"
  shows "traceLoop im s ox oy
           \<lparr>cx = ox, cy = oy + int n * s, dir = 2, maxIter = M, path = P, found = f\<rparr> =
         \<lparr>cx = ox, cy = oy, dir = 3, maxIter = M - int n,
            path = P @ map (\<lambda>j. (ox, oy + (int n - int j) * s)) [0..<n], found = True\<rparr>"
proof -
  define pt where "pt = (\<lambda>j::nat. (ox, oy + (int n - int j) * s))"
  have mv: "tryDirs im s (fst (pt j)) (snd (pt j)) (checkDirs (if j = 0 then 2 else 3)) =
              Some (fst (pt (Suc j)), snd (pt (Suc j)), 3)" if "j < n" for j
    using tryDirs_grid [OF G, of 0 "int n - int j" "checkDirs (if j = 0 then 2 else 3)"] that
    by (simp add: pt_def grid_eval algebra_simps)
  have ns: "pt j \<noteq> (ox, oy)" if "0 < j" "j \<le> n - 1" for j
    using that s n by (simp add: pt_def)
  have bd': "int (n - 1) < M"
    using bd n by simp
  have mv': "tryDirs im s (fst (pt j)) (snd (pt j)) (checkDirs (if j = 0 then 2 else 3)) =
              Some (fst (pt (Suc j)), snd (pt (Suc j)), 3)" if "j < n - 1" for j
    using mv [of j] that by simp
  have run: "traceLoop im s ox oy
           \<lparr>cx = ox, cy = oy + int n * s, dir = 2, maxIter = M, path = P, found = f\<rparr> =
         traceLoop im s ox oy
           \<lparr>cx = ox, cy = oy + s, dir = (if n - 1 = 0 then 2 else 3), maxIter = M - int (n - 1),
            path = P @ map pt [0..<n - 1], found = (if n - 1 = 0 then f else True)\<rparr>"
    using trace_run [of "n - 1" im s pt 2 3 ox oy M P f, OF mv' ns bd'] n
    by (simp add: pt_def algebra_simps of_nat_diff)
  have last: "tryDirs im s ox (oy + s) (checkDirs (if n - 1 = 0 then 2 else 3)) = Some (ox, oy, 3)"
    using mv [of "n - 1"] n by (simp add: pt_def algebra_simps of_nat_diff)
  have "[0..<n] = [0..<n - 1] @ [n - 1]"
    using n by (metis Suc_diff_1 upt_Suc_append zero_le)
  then have pts: "map pt [0..<n] = map pt [0..<n - 1] @ [(ox, oy + s)]"
    using n by (simp add: pt_def algebra_simps of_nat_diff)
  have "traceLoop im s ox oy
           \<lparr>cx = ox, cy = oy + int n * s, dir = 2, maxIter = M, path = P, found = f\<rparr> =
         \<lparr>cx = ox, cy = oy, dir = 3, maxIter = M - int n,
            path = P @ map pt [0..<n], found = True\<rparr>"
    unfolding run using last n
    by (subst traceLoop_unfold) (simp add: pts of_nat_diff)
  then show ?thesis
    by (simp add: pt_def)
qed


lemma trace_rectangle:
  assumes G: "gridRect im s ox oy m n" and s: "0 < s" and m: "0 < m" and n: "0 < n"
    and budget: "2 * (int m + int n) \<le> 5000"
  shows "path (traceLoop im s ox oy (initialTracer ox oy)) = perimeter s ox oy m n"
proof -
  have 1: "int m < 5000" and 2: "int n < 5000 - int m" and 3: "int m < 5000 - int m - int n"
    and 4: "int n \<le> 5000 - int m - int n - int m"
    using budget m n by simp_all
  let ?top = "map (\<lambda>i. (ox + int i * s, oy)) [0..<m]"
  let ?right = "map (\<lambda>j. (ox + int m * s, oy + int j * s)) [0..<n]"
  let ?bottom = "map (\<lambda>i. (ox + (int m - int i) * s, oy + int n * s)) [0..<m]"
  let ?left = "map (\<lambda>j. (ox, oy + (int n - int j) * s)) [0..<n]"
  have "traceLoop im s ox oy (initialTracer ox oy) =
        traceLoop im s ox oy
           \<lparr>cx = ox + int m * s, cy = oy, dir = 0, maxIter = 5000 - int m,
            path = [] @ ?top, found = True\<rparr>"
    unfolding initialTracer_def by (rule trace_top [OF G s m 1])
  also have "\<dots> = traceLoop im s ox oy
           \<lparr>cx = ox + int m * s, cy = oy + int n * s, dir = 1, maxIter = 5000 - int m - int n,
            path = ([] @ ?top) @ ?right, found = True\<rparr>"
    by (rule trace_right [OF G s m n 2])
  also have "\<dots> = traceLoop im s ox oy
           \<lparr>cx = ox, cy = oy + int n * s, dir = 2, maxIter = 5000 - int m - int n - int m,
            path = (([] @ ?top) @ ?right) @ ?bottom, found = True\<rparr>"
    by (rule trace_bottom [OF G s m n 3])
  also have "\<dots> = \<lparr>cx = ox, cy = oy, dir = 3, maxIter = 5000 - int m - int n - int m - int n,
            path = ((([] @ ?top) @ ?right) @ ?bottom) @ ?left, found = True\<rparr>"
    by (rule trace_left [OF G s m n 4])
  finally show ?thesis
    by (simp add: perimeter_def)
qed

lemma find_upt_first:
  "k \<le> a \<Longrightarrow> a < n \<Longrightarrow> P (f a) \<Longrightarrow> (\<And>i. k \<le> i \<Longrightarrow> i < a \<Longrightarrow> \<not> P (f i)) \<Longrightarrow>
     find P (map f [k..<n]) = Some (f a)"
proof (induction "a - k" arbitrary: k)
  case 0
  then have "k = a"
    by simp
  then show ?case
    using 0 by (simp add: upt_conv_Cons)
next
  case (Suc d)
  then have "k < a" "k < n"
    by simp_all
  then have "find P (map f [k..<n]) = find P (map f [Suc k..<n])"
    using Suc.prems(4) [of k] by (simp add: upt_conv_Cons)
  also have "\<dots> = Some (f a)"
    using Suc.hyps(2) Suc.prems \<open>k < a\<close> by (intro Suc.hyps(1)) simp_all
  finally show ?case .
qed

lemma grid_point_solid:
  assumes G: "gridRect im s (int a * s) (int b * s) m n"
  shows "isSolid im (int i * s) (int j * s) = inside m n (int i - int a) (int j - int b)"
proof -
  have "isSolid im (int a * s + (int i - int a) * s) (int b * s + (int j - int b) * s) =
          inside m n (int i - int a) (int j - int b)"
    using G unfolding gridRect_def by blast
  then show ?thesis
    by (simp add: algebra_simps)
qed

lemma seed_rectangle:
  assumes G: "gridRect im s (int a * s) (int b * s) m n" and s: "0 < s"
  shows "findStart im s 0 0 = Some (Some (int a * s, int b * s))"
proof -
  have solid: "getVal im (int i * s) (int j * s) = Suc 0 \<longleftrightarrow>
                 inside m n (int i - int a) (int j - int b)" for i j
    using grid_point_solid [OF G, of i j] by (simp add: isSolid_def)
  have "getVal im (int a * s) (int b * s) = 1"
    by (simp add: solid inside_def)
  then have inb: "int a * s < width im" "int b * s < height im"
    using getVal_1_nonneg by blast+
  have skip: "findStart im s (int j * s) 0 = findStart im s (int (Suc j) * s) 0" if "j < b" for j
  proof -
    have "int j * s < int b * s"
      using that s by simp
    then have row: "int j * s < height im"
      using inb(2) by simp
    have "find (\<lambda>x. getVal im x (int j * s) = 1)
            (map (\<lambda>i. int i * s) [0..<nat ((width im + s - 1) div s)]) = None"
      using that by (simp add: find_None_iff solid inside_def)
    then show ?thesis
      using scan_row [OF s row, of 0 "nat ((width im + s - 1) div s)"]
      by (simp add: algebra_simps)
  qed
  have rows: "findStart im s 0 0 = findStart im s (int j * s) 0" if "j \<le> b" for j
    using that
  proof (induction j)
    case 0
    then show ?case by simp
  next
    case (Suc j)
    then show ?case
      using skip [of j] by simp
  qed
  have cols: "a < nat ((width im + s - 1) div s)"
    using sample_count_iff [OF s, of a "width im"] inb(1) by simp
  have "find (\<lambda>x. getVal im x (int b * s) = 1)
          (map (\<lambda>i. int i * s) [0..<nat ((width im + s - 1) div s)]) = Some (int a * s)"
    using cols by (intro find_upt_first) (simp_all add: solid inside_def)
  then have "findStart im s (int b * s) 0 = Some (Some (int a * s, int b * s))"
    using scan_row [OF s inb(2), of 0 "nat ((width im + s - 1) div s)"] by simp
  then show ?thesis
    using rows [of b] by simp
qed


lemma keepFar_append:
  "keepFar k (ps @ qs) = keepFar k ps @ keepFar (last (k # keepFar k ps)) qs"
  by (induction ps arbitrary: k) simp_all

lemma keepFar_nonempty:
  "q \<in> set qs \<Longrightarrow> hypot (fst k - fst q) (snd k - snd q) > 15 \<Longrightarrow> keepFar k qs \<noteq> []"
  by (induction qs) (auto split: if_splits)

lemma last_keepFar:
  "keepFar k qs \<noteq> [] \<Longrightarrow> last (k # keepFar k qs) \<in> set qs"
  using set_keepFar [of k qs] last_in_set [of "keepFar k qs"] by auto

lemma square_gt_225:
  assumes "15 < (d::int)"
  shows "225 < d * d + e * e"
proof -
  have "16 * 16 \<le> d * d"
    using assms by (intro mult_mono) simp_all
  moreover have "0 \<le> e * e"
    by simp
  ultimately show ?thesis
    by linarith
qed

lemma far_horizontal: "15 < fst q - fst k \<or> 15 < fst k - fst q \<Longrightarrow>
    hypot (fst k - fst q) (snd k - snd q) > 15"
proof -
  assume "15 < fst q - fst k \<or> 15 < fst k - fst q"
  then have "225 < (fst k - fst q) * (fst k - fst q) + (snd k - snd q) * (snd k - snd q)"
    using square_gt_225 [of "fst k - fst q" "snd k - snd q"]
      square_gt_225 [of "fst q - fst k" "snd k - snd q"]
    by (auto simp: algebra_simps)
  then show ?thesis
    by (simp add: hypot_gt_15)
qed

lemma far_vertical: "15 < snd q - snd k \<or> 15 < snd k - snd q \<Longrightarrow>
    hypot (fst k - fst q) (snd k - snd q) > 15"
proof -
  assume "15 < snd q - snd k \<or> 15 < snd k - snd q"
  then have "225 < (snd k - snd q) * (snd k - snd q) + (fst k - fst q) * (fst k - fst q)"
    using square_gt_225 [of "snd k - snd q" "fst k - fst q"]
      square_gt_225 [of "snd q - snd k" "fst k - fst q"]
    by (auto simp: algebra_simps)
  then show ?thesis
    by (simp add: hypot_gt_15 add.commute)
qed

lemma regroup_upt:
  assumes "0 < m"
  shows "map f [0..<m] = f 0 # map f [Suc 0..<m]"
  using assms by (simp add: upt_conv_Cons)

lemma perimeter_regroup:
  assumes m: "0 < m" and n: "0 < n"
  shows "perimeter s ox oy m n =
     (ox, oy) # map (\<lambda>i. (ox + int i * s, oy)) [1..<Suc m]
     @ map (\<lambda>j. (ox + int m * s, oy + int j * s)) [1..<Suc n]
     @ map (\<lambda>i. (ox + (int m - int i) * s, oy + int n * s)) [1..<Suc m]
     @ map (\<lambda>j. (ox, oy + (int n - int j) * s)) [1..<n]"
  unfolding perimeter_def
  using m n by (simp add: regroup_upt [OF m] regroup_upt [OF n] Suc_le_eq)


lemma perimeter_in_box:
  assumes s: "0 < s" and p: "p \<in> set (perimeter s ox oy m n)"
  shows "ox \<le> fst p \<and> fst p \<le> ox + int m * s \<and> oy \<le> snd p \<and> snd p \<le> oy + int n * s"
proof -
  have le: "int i * s \<le> int k * s" if "i \<le> k" for i k :: nat
    using that s by (intro mult_right_mono) simp_all
  have ge: "0 \<le> int i * s" for i :: nat
    using s by simp
  have sub: "(int k - int i) * s \<le> int k * s \<and> 0 \<le> (int k - int i) * s" if "i \<le> k" for i k :: nat
    using that s by (simp add: mult_right_mono)
  from p consider
      i where "i < m" "p = (ox + int i * s, oy)"
    | j where "j < n" "p = (ox + int m * s, oy + int j * s)"
    | i where "i < m" "p = (ox + (int m - int i) * s, oy + int n * s)"
    | j where "j < n" "p = (ox, oy + (int n - int j) * s)"
    by (auto simp: perimeter_def)
  then show ?thesis
  proof cases
    case 1
    then show ?thesis using le [of i m] ge [of i] ge [of n] by simp
  next
    case 2
    then show ?thesis using le [of j n] ge [of j] ge [of m] by simp
  next
    case 3
    then show ?thesis using sub [of i m] ge [of n] by simp
  next
    case 4
    then show ?thesis using sub [of j n] ge [of m] by simp
  qed
qed

lemma simplify_perimeter:
  assumes s: "0 < s" and m: "0 < m" and n: "0 < n"
    and W: "15 < int m * s" and H: "15 < int n * s"
  shows "3 \<le> length (simplify (perimeter s ox oy m n))
         \<and> (ox, oy) \<in> set (simplify (perimeter s ox oy m n))
         \<and> (\<exists>y. (ox + int m * s, y) \<in> set (simplify (perimeter s ox oy m n)))
         \<and> (\<exists>x. (x, oy + int n * s) \<in> set (simplify (perimeter s ox oy m n)))"
proof -
  define A where "A = map (\<lambda>i. (ox + int i * s, oy)) [1..<Suc m]"
  define B where "B = map (\<lambda>j. (ox + int m * s, oy + int j * s)) [1..<Suc n]"
  define C where "C = map (\<lambda>i. (ox + (int m - int i) * s, oy + int n * s)) [1..<Suc m]"
  define Z where "Z = map (\<lambda>j. (ox, oy + (int n - int j) * s)) [1..<n]"
  define KA where "KA = keepFar (ox, oy) A"
  define k1 where "k1 = last ((ox, oy) # KA)"
  define KB where "KB = keepFar k1 B"
  define k2 where "k2 = last (k1 # KB)"
  define KC where "KC = keepFar k2 C"
  define k3 where "k3 = last (k2 # KC)"
  define KZ where "KZ = keepFar k3 Z"
  have per: "perimeter s ox oy m n = (ox, oy) # A @ B @ C @ Z"
    unfolding A_def B_def C_def Z_def by (rule perimeter_regroup [OF m n])
  have "keepFar (ox, oy) (A @ B @ C @ Z) = KA @ KB @ KC @ KZ"
    by (simp add: keepFar_append KA_def k1_def KB_def k2_def KC_def k3_def KZ_def
        del: keepFar.simps)
  then have simp_eq: "simplify (perimeter s ox oy m n) = (ox, oy) # KA @ KB @ KC @ KZ"
    by (simp add: per simplify_eq_spec simplifyAsSpecified_def)
  have c1: "(ox + int m * s, oy) \<in> set A"
    using m by (auto simp: A_def intro!: image_eqI [of _ _ m])
  have "hypot (fst (ox, oy) - fst (ox + int m * s, oy)) (snd (ox, oy) - snd (ox + int m * s, oy)) > 15"
    by (rule far_horizontal) (use W in simp)
  then have KA: "KA \<noteq> []"
    unfolding KA_def using c1 by (intro keepFar_nonempty)
  then have "k1 \<in> set A"
    unfolding k1_def KA_def by (rule last_keepFar)
  then have k1: "snd k1 = oy"
    by (auto simp: A_def)
  have c2: "(ox + int m * s, oy + int n * s) \<in> set B"
    using n by (auto simp: B_def intro!: image_eqI [of _ _ n])
  have "hypot (fst k1 - fst (ox + int m * s, oy + int n * s))
          (snd k1 - snd (ox + int m * s, oy + int n * s)) > 15"
    by (rule far_vertical) (use H k1 in simp)
  then have KB: "KB \<noteq> []"
    unfolding KB_def using c2 by (intro keepFar_nonempty)
  then have k2B: "k2 \<in> set B"
    unfolding k2_def KB_def by (rule last_keepFar)
  then have k2: "fst k2 = ox + int m * s"
    by (auto simp: B_def)
  have k2K: "k2 \<in> set KB"
    using KB by (simp add: k2_def)
  have c3: "(ox, oy + int n * s) \<in> set C"
    using m by (auto simp: C_def intro!: image_eqI [of _ _ m])
  have "hypot (fst k2 - fst (ox, oy + int n * s)) (snd k2 - snd (ox, oy + int n * s)) > 15"
    by (rule far_horizontal) (use W k2 in simp)
  then have KC: "KC \<noteq> []"
    unfolding KC_def using c3 by (intro keepFar_nonempty)
  then have "k3 \<in> set C"
    unfolding k3_def KC_def by (rule last_keepFar)
  then have k3: "snd k3 = oy + int n * s"
    by (auto simp: C_def)
  have k3K: "k3 \<in> set KC"
    using KC by (simp add: k3_def)
  have len: "3 \<le> length (simplify (perimeter s ox oy m n))"
    using KA KB KC by (cases KA; cases KB; cases KC) (simp_all add: simp_eq)
  have "k2 = (ox + int m * s, snd k2)"
    using k2 by (cases k2) simp
  then have "(ox + int m * s, snd k2) \<in> set KB"
    using k2K by simp
  then have right: "(ox + int m * s, snd k2) \<in> set (simplify (perimeter s ox oy m n))"
    by (simp add: simp_eq)
  have "k3 = (fst k3, oy + int n * s)"
    using k3 by (cases k3) simp
  then have "(fst k3, oy + int n * s) \<in> set KC"
    using k3K by simp
  then have bottom: "(fst k3, oy + int n * s) \<in> set (simplify (perimeter s ox oy m n))"
    by (simp add: simp_eq)
  have seed: "(ox, oy) \<in> set (simplify (perimeter s ox oy m n))"
    by (simp add: simp_eq)
  show ?thesis
    using len seed right bottom by blast
qed


lemma div_mult_bounds:
  assumes "0 < (s::int)"
  shows "(v div s) * s \<le> v \<and> v < (v div s) * s + s"
proof -
  have "v = (v div s) * s + v mod s"
    by simp
  moreover have "0 \<le> v mod s" "v mod s < s"
    using assms by simp_all
  ultimately show ?thesis
    by linarith
qed

lemma firstSample_bounds:
  "0 < s \<Longrightarrow> v \<le> firstSample s v \<and> firstSample s v < v + s"
  using div_mult_bounds [of s "v + s - 1"] by (simp add: firstSample_def)

lemma lastSample_bounds:
  "0 < s \<Longrightarrow> v - s \<le> lastSample s v \<and> lastSample s v < v"
  using div_mult_bounds [of s "v - 1"] by (simp add: lastSample_def)

lemma lower_side:
  assumes s: "0 < (s::int)" and g: "v \<le> g" "g < v + s"
  shows "(v \<le> g + i * s) = (0 \<le> i)"
proof (cases "0 \<le> i")
  case True
  then have "0 \<le> i * s"
    using s by simp
  then have "v \<le> g + i * s"
    using g by linarith
  then show ?thesis
    using True by simp
next
  case False
  then have "i * s \<le> (- 1) * s"
    using s by (intro mult_right_mono) simp_all
  then have "\<not> v \<le> g + i * s"
    using g by linarith
  then show ?thesis
    using False by simp
qed

lemma upper_side:
  assumes s: "0 < (s::int)" and g: "g + k * s < v" "v \<le> g + k * s + s"
  shows "(g + i * s < v) = (i \<le> k)"
proof (cases "i \<le> k")
  case True
  then have "i * s \<le> k * s"
    using s by (intro mult_right_mono) simp_all
  then have "g + i * s < v"
    using g by linarith
  then show ?thesis
    using True by simp
next
  case False
  then have "(k + 1) * s \<le> i * s"
    using s by (intro mult_right_mono) simp_all
  moreover have "(k + 1) * s = k * s + s"
    by (simp add: algebra_simps)
  ultimately have "\<not> g + i * s < v"
    using g by linarith
  then show ?thesis
    using False by simp
qed

lemma rectangle_gridRect:
  assumes s: "0 < s"
    and rect: "\<forall>x y. isSolid im x y = (x0 \<le> x \<and> x < x1 \<and> y0 \<le> y \<and> y < y1)"
    and m: "lastSample s x1 = firstSample s x0 + int m * s"
    and n: "lastSample s y1 = firstSample s y0 + int n * s"
  shows "gridRect im s (firstSample s x0) (firstSample s y0) m n"
proof -
  have x: "(x0 \<le> firstSample s x0 + i * s) = (0 \<le> i)"
      "(firstSample s x0 + i * s < x1) = (i \<le> int m)" for i
    using lower_side [OF s, of x0 "firstSample s x0" i]
      upper_side [OF s, of "firstSample s x0" "int m" x1 i]
      firstSample_bounds [OF s, of x0] lastSample_bounds [OF s, of x1] m
    by simp_all
  have y: "(y0 \<le> firstSample s y0 + j * s) = (0 \<le> j)"
      "(firstSample s y0 + j * s < y1) = (j \<le> int n)" for j
    using lower_side [OF s, of y0 "firstSample s y0" j]
      upper_side [OF s, of "firstSample s y0" "int n" y1 j]
      firstSample_bounds [OF s, of y0] lastSample_bounds [OF s, of y1] n
    by simp_all
  show ?thesis
    unfolding gridRect_def inside_def by (simp add: rect x y)
qed


lemma sample_extent:
  assumes s: "0 < s" and ext: "15 < lastSample s v1 - firstSample s v0"
  shows "\<exists>m::nat. 0 < m \<and> lastSample s v1 = firstSample s v0 + int m * s
           \<and> int m = (lastSample s v1 - firstSample s v0) div s"
proof -
  define d where "d = (v1 - 1) div s - (v0 + s - 1) div s"
  have diff: "lastSample s v1 - firstSample s v0 = d * s"
    by (simp add: lastSample_def firstSample_def d_def algebra_simps)
  then have "0 < d * s"
    using ext by simp
  then have pos: "0 < d"
    using s by (simp add: zero_less_mult_iff)
  have "(lastSample s v1 - firstSample s v0) div s = d"
    using s diff by simp
  then have "0 < nat d \<and> lastSample s v1 = firstSample s v0 + int (nat d) * s
           \<and> int (nat d) = (lastSample s v1 - firstSample s v0) div s"
    using pos diff by simp
  then show ?thesis ..
qed

text \<open>
  Claim C2, as the code has it: let the opaque region be the filled rectangle
  \<open>[x0, x1) \<times> [y0, y1)\<close>, let its sampled coordinates span more than 15 (the minimum
  segment length) in both dimensions, and let the walk around its sampled boundary fit
  the budget (sampled width plus sampled height at most 2500 steps). Then extraction
  returns at least 3 points, and their bounding box is the box of the rectangle's first
  and last sampled coordinates, each side less than one sampling step inside the
  rectangle's own side.
\<close>

theorem rectangle_contour:
  assumes s: "0 < s"
    and rect: "\<forall>x y. isSolid im x y = (x0 \<le> x \<and> x < x1 \<and> y0 \<le> y \<and> y < y1)"
    and W: "15 < lastSample s x1 - firstSample s x0"
    and H: "15 < lastSample s y1 - firstSample s y0"
    and budget: "(lastSample s x1 - firstSample s x0) div s
                 + (lastSample s y1 - firstSample s y0) div s \<le> 2500"
  shows "\<exists>pts. getVerticesFromImage im s = Some (Some pts) \<and> 3 \<le> length pts
           \<and> Min (fst ` set pts) = firstSample s x0 \<and> Max (fst ` set pts) = lastSample s x1
           \<and> Min (snd ` set pts) = firstSample s y0 \<and> Max (snd ` set pts) = lastSample s y1
           \<and> x0 \<le> Min (fst ` set pts) \<and> Min (fst ` set pts) < x0 + s
           \<and> x1 - s \<le> Max (fst ` set pts) \<and> Max (fst ` set pts) < x1
           \<and> y0 \<le> Min (snd ` set pts) \<and> Min (snd ` set pts) < y0 + s
           \<and> y1 - s \<le> Max (snd ` set pts) \<and> Max (snd ` set pts) < y1"
proof -
  define ox oy where "ox = firstSample s x0" and "oy = firstSample s y0"
  obtain m :: nat where m: "0 < m" "lastSample s x1 = ox + int m * s"
      "int m = (lastSample s x1 - firstSample s x0) div s"
    using sample_extent [OF s W] unfolding ox_def by blast
  obtain n :: nat where n: "0 < n" "lastSample s y1 = oy + int n * s"
      "int n = (lastSample s y1 - firstSample s y0) div s"
    using sample_extent [OF s H] unfolding oy_def by blast
  have G: "gridRect im s ox oy m n"
    unfolding ox_def oy_def using s rect m(2) n(2) unfolding ox_def oy_def
    by (rule rectangle_gridRect)
  have "isSolid im ox oy"
    using G by (simp add: gridRect_def inside_def) (metis add.right_neutral mult_zero_left of_nat_0_le_iff order_refl)
  then have "0 \<le> ox" "0 \<le> oy"
    using getVal_1_nonneg [of im ox oy] by (simp_all add: isSolid_def)
  then obtain a b :: nat where ab: "ox = int a * s" "oy = int b * s"
    using dvd_nonneg_multiple [OF s, of ox] dvd_nonneg_multiple [OF s, of oy]
    by (auto simp: ox_def oy_def firstSample_def)
  have seed: "findStart im s 0 0 = Some (Some (ox, oy))"
    using seed_rectangle [of im s a b m n] G s by (simp add: ab)
  have bd: "2 * (int m + int n) \<le> 5000"
    using budget m(3) n(3) by simp
  define pts where "pts = simplify (perimeter s ox oy m n)"
  have res: "getVerticesFromImage im s = Some (Some pts)"
    using getVerticesFromImage_found [OF seed] trace_rectangle [OF G s m(1) n(1) bd]
    by (simp add: pts_def)
  have Wm: "15 < int m * s" and Hn: "15 < int n * s"
    using W H m(2) n(2) by (simp_all add: ox_def oy_def)
  have kept: "3 \<le> length pts" "(ox, oy) \<in> set pts"
      "\<exists>y. (ox + int m * s, y) \<in> set pts" "\<exists>x. (x, oy + int n * s) \<in> set pts"
    using simplify_perimeter [OF s m(1) n(1) Wm Hn, of ox oy] by (simp_all add: pts_def)
  have box: "ox \<le> fst p \<and> fst p \<le> ox + int m * s \<and> oy \<le> snd p \<and> snd p \<le> oy + int n * s"
    if "p \<in> set pts" for p
    using that set_simplify [of "perimeter s ox oy m n"] perimeter_in_box [OF s, of p ox oy m n]
    by (auto simp: pts_def)
  have minx: "Min (fst ` set pts) = ox"
    using kept(2) box by (intro Min_eqI) force+
  have miny: "Min (snd ` set pts) = oy"
    using kept(2) box by (intro Min_eqI) force+
  have maxx: "Max (fst ` set pts) = ox + int m * s"
    using kept(3) box by (intro Max_eqI) force+
  have maxy: "Max (snd ` set pts) = oy + int n * s"
    using kept(4) box by (intro Max_eqI) force+
  have "3 \<le> length pts
           \<and> Min (fst ` set pts) = firstSample s x0 \<and> Max (fst ` set pts) = lastSample s x1
           \<and> Min (snd ` set pts) = firstSample s y0 \<and> Max (snd ` set pts) = lastSample s y1
           \<and> x0 \<le> Min (fst ` set pts) \<and> Min (fst ` set pts) < x0 + s
           \<and> x1 - s \<le> Max (fst ` set pts) \<and> Max (fst ` set pts) < x1
           \<and> y0 \<le> Min (snd ` set pts) \<and> Min (snd ` set pts) < y0 + s
           \<and> y1 - s \<le> Max (snd ` set pts) \<and> Max (snd ` set pts) < y1"
    unfolding minx miny maxx maxy
    using kept(1) m(2) n(2) firstSample_bounds [OF s, of x0] firstSample_bounds [OF s, of y0]
      lastSample_bounds [OF s, of x1] lastSample_bounds [OF s, of y1]
    by (simp add: ox_def oy_def)
  then show ?thesis
    using res by blast
qed

theorem rectangle_contour_witness:
  "\<exists>pts. getVerticesFromImage borderImage 4 = Some (Some pts) \<and> 3 \<le> length pts
     \<and> Min (fst ` set pts) = 4 \<and> Max (fst ` set pts) = 56
     \<and> Min (snd ` set pts) = 4 \<and> Max (snd ` set pts) = 56"
proof -
  have rect: "\<forall>x y. isSolid borderImage x y = (4 \<le> x \<and> x < 60 \<and> 4 \<le> y \<and> y < 60)"
    by (auto simp: borderImage_def isSolid_maskImage)
  have ext: "15 < lastSample 4 60 - firstSample 4 4"
    and bd: "(lastSample 4 60 - firstSample 4 4) div 4 + (lastSample 4 60 - firstSample 4 4) div 4 \<le> 2500"
    by (simp_all add: lastSample_def firstSample_def)
  have s: "0 < (4::int)"
    by simp
  show ?thesis
    using rectangle_contour [OF s rect ext ext bd]
    by (simp add: lastSample_def firstSample_def) blast
qed

lemma size_suffices:
  assumes "0 < s" "2 * s + 15 \<le> v1 - v0"
  shows "15 < lastSample s v1 - firstSample s v0"
  using firstSample_bounds [OF assms(1), of v0] lastSample_bounds [OF assms(1), of v1] assms(2)
  by linarith

lemma trace_top_exhausted:
  assumes G: "gridRect im s ox oy m n" and s: "0 < s" and m: "5000 \<le> m"
  shows "path (traceLoop im s ox oy (initialTracer ox oy)) =
           map (\<lambda>i. (ox + int i * s, oy)) [0..<5000]"
proof -
  define pt where "pt = (\<lambda>i::nat. (ox + int i * s, oy))"
  have mv: "tryDirs im s (fst (pt i)) (snd (pt i)) (checkDirs (if i = 0 then 0 else 0)) =
              Some (fst (pt (Suc i)), snd (pt (Suc i)), 0)" if "i < m" for i
    using tryDirs_grid [OF G, of "int i" 0 "checkDirs 0"] that
    by (simp add: pt_def grid_eval algebra_simps)
  have mv': "tryDirs im s (fst (pt i)) (snd (pt i)) (checkDirs (if i = 0 then 0 else 0)) =
              Some (fst (pt (Suc i)), snd (pt (Suc i)), 0)" if "i < 4999" for i
    using mv [of i] that m by simp
  have ns: "pt i \<noteq> (ox, oy)" if "0 < i" "i \<le> 4999" for i
    using that s by (simp add: pt_def)
  have bd: "int 4999 < 5000"
    by simp
  have run: "traceLoop im s ox oy (initialTracer ox oy) =
         traceLoop im s ox oy
           \<lparr>cx = ox + 4999 * s, cy = oy, dir = 0, maxIter = 1,
            path = map pt [0..<4999], found = True\<rparr>"
    using trace_run [of 4999 im s pt 0 0 ox oy 5000 "[]" False, OF mv' ns bd]
    by (simp add: pt_def initialTracer_def)
  have last: "tryDirs im s (ox + 4999 * s) oy (checkDirs 0) = Some (ox + 5000 * s, oy, 0)"
    using mv [of 4999] m by (simp add: pt_def)
  have "[0..<5000] = [0..<4999] @ [4999::nat]"
    using upt_Suc_append [of 0 4999] by simp
  then have pts: "map pt [0..<5000] = map pt [0..<4999] @ [(ox + 4999 * s, oy)]"
    by (simp add: pt_def)
  have "path (traceLoop im s ox oy (initialTracer ox oy)) = map pt [0..<5000]"
    unfolding run using last by (subst traceLoop_unfold) (simp add: pts)
  then show ?thesis
    by (simp add: pt_def)
qed

text \<open>
  The fully opaque 20004 x 20 image, sampled every 4 pixels, is a rectangle of 5001 by 5
  samples: the walk along its top row uses up the whole budget of 5000 iterations.
\<close>

lemma long_image_rect:
  "\<forall>x y. isSolid (solidImage 20004 20) x y = (0 \<le> x \<and> x < 20004 \<and> 0 \<le> y \<and> y < 20)"
  by (simp add: solidImage_def isSolid_maskImage)

lemma long_image_grid: "gridRect (solidImage 20004 20) 4 0 0 5000 4"
proof -
  have "gridRect (solidImage 20004 20) 4 (firstSample 4 0) (firstSample 4 0) 5000 4"
    using long_image_rect
    by (intro rectangle_gridRect [where ?x1.0 = 20004 and ?y1.0 = 20])
      (simp_all add: firstSample_def lastSample_def)
  then show ?thesis
    by (simp add: firstSample_def)
qed

lemma long_image_seed: "findStart (solidImage 20004 20) 4 0 0 = Some (Some (0, 0))"
  using seed_rectangle [of "solidImage 20004 20" 4 0 0 5000 4] long_image_grid by simp

lemma long_image_path:
  "path (traceLoop (solidImage 20004 20) 4 0 0 (initialTracer 0 0)) =
     map (\<lambda>i. (int i * 4, 0)) [0..<5000]"
  using trace_top_exhausted [OF long_image_grid] by simp

text \<open>
  Claim C2 as stated fails twice. The fully opaque 8 x 8 image is a rectangle of twice
  the step 4 in both dimensions, and extraction returns the single point (0, 0). The
  fully opaque 20004 x 20 image exhausts the budget on its top row, so every returned
  point has \<open>y = 0\<close> while the rectangle reaches down to \<open>y = 19\<close>.
\<close>

theorem rectangle_contour_counterexample:
  "(\<forall>x y. isSolid (solidImage 8 8) x y = (0 \<le> x \<and> x < 8 \<and> 0 \<le> y \<and> y < 8))
   \<and> getVerticesFromImage (solidImage 8 8) 4 = Some (Some [(0, 0)])
   \<and> (\<forall>x y. isSolid (solidImage 20004 20) x y = (0 \<le> x \<and> x < 20004 \<and> 0 \<le> y \<and> y < 20))
   \<and> (\<exists>pts. getVerticesFromImage (solidImage 20004 20) 4 = Some (Some pts)
          \<and> Max (snd ` set pts) = 0)"
proof -
  have seed: "findStart (solidImage 8 8) 4 0 0 = Some (Some (0, 0))"
    by (simp add: findStart.simps solid_eval)
  have "path (traceLoop (solidImage 8 8) 4 0 0 (initialTracer 0 0)) = [(0, 0), (4, 0), (4, 4), (0, 4)]"
    by (simp add: traceLoop_unfold solid_eval)
  then have small: "getVerticesFromImage (solidImage 8 8) 4 = Some (Some [(0, 0)])"
    using getVerticesFromImage_found [OF seed] by (simp add: simplify_def hypot_gt_15)
  define pts where "pts = simplify (map (\<lambda>i. (int i * 4, 0::int)) [0..<5000])"
  have res: "getVerticesFromImage (solidImage 20004 20) 4 = Some (Some pts)"
    using getVerticesFromImage_found [OF long_image_seed] long_image_path by (simp add: pts_def)
  have "pts \<noteq> []"
    using hd_simplify [of "map (\<lambda>i. (int i * 4, 0::int)) [0..<5000]"] by (simp add: pts_def)
  moreover have "snd p = 0" if "p \<in> set pts" for p
    using that set_simplify [of "map (\<lambda>i. (int i * 4, 0::int)) [0..<5000]"]
    by (auto simp: pts_def)
  ultimately have "Max (snd ` set pts) = 0"
    by (intro Max_eqI) (auto simp: neq_Nil_conv)
  then show ?thesis
    using small res long_image_rect by (auto simp: solidImage_def isSolid_maskImage)
qed

text \<open>
  Three runs of the tracer, one for each way to leave the loop. On the fully opaque
  8 x 8 image it is back at the seed after four moves and stops there, the seed pushed
  once. On the image whose only solid sample is the seed it stops at once, with no
  solid candidate. On the fully opaque 20004 x 20 image it stops when the budget is
  used up, after 5000 points and not after 4999, and extraction still returns the
  simplified path.
\<close>

theorem traceLoop_within_budget_witness:
  "findStart (solidImage 8 8) 4 0 0 = Some (Some (0, 0))
   \<and> path (traceLoop (solidImage 8 8) 4 0 0 (initialTracer 0 0)) = [(0, 0), (4, 0), (4, 4), (0, 4)]
   \<and> cx (traceLoop (solidImage 8 8) 4 0 0 (initialTracer 0 0)) = 0
   \<and> cy (traceLoop (solidImage 8 8) 4 0 0 (initialTracer 0 0)) = 0
   \<and> walk (solidImage 8 8) 4 3 (0, 0, 0) = Some (0, 4, 2)
   \<and> walk (solidImage 8 8) 4 4 (0, 0, 0) = Some (0, 0, 3)
   \<and> \<not> stopsAsSpecified (solidImage 8 8) 4 0 0 3
   \<and> stopsAsSpecified (solidImage 8 8) 4 0 0 4
   \<and> getVerticesFromImage (solidImage 8 8) 4 = Some (Some [(0, 0)])
   \<and> path (traceLoop dotImage 4 0 0 (initialTracer 0 0)) = [(0, 0)]
   \<and> walk dotImage 4 1 (0, 0, 0) = None
   \<and> length (path (traceLoop (solidImage 20004 20) 4 0 0 (initialTracer 0 0))) = 5000
   \<and> \<not> stopsAsSpecified (solidImage 20004 20) 4 0 0 4999
   \<and> stopsAsSpecified (solidImage 20004 20) 4 0 0 5000
   \<and> (0, 0) \<notin> set (tl (path (traceLoop (solidImage 20004 20) 4 0 0 (initialTracer 0 0))))
   \<and> getVerticesFromImage (solidImage 20004 20) 4 =
       Some (Some (simplify (path (traceLoop (solidImage 20004 20) 4 0 0 (initialTracer 0 0)))))"
proof -
  have seed: "findStart (solidImage 8 8) 4 0 0 = Some (Some (0, 0))"
    by (simp add: findStart.simps solid_eval)
  have tr: "traceLoop (solidImage 8 8) 4 0 0 (initialTracer 0 0) =
      \<lparr>cx = 0, cy = 0, dir = 3, maxIter = 4996, path = [(0, 0), (4, 0), (4, 4), (0, 4)], found = True\<rparr>"
    by (simp add: traceLoop_unfold solid_eval)
  have p8: "path (traceLoop (solidImage 8 8) 4 0 0 (initialTracer 0 0)) = [(0, 0), (4, 0), (4, 4), (0, 4)]"
    and cx8: "cx (traceLoop (solidImage 8 8) 4 0 0 (initialTracer 0 0)) = 0"
    and cy8: "cy (traceLoop (solidImage 8 8) 4 0 0 (initialTracer 0 0)) = 0"
    and len8: "length (path (traceLoop (solidImage 8 8) 4 0 0 (initialTracer 0 0))) = 4"
    by (simp_all add: tr)
  have small: "simplify [(0, 0), (4, 0), (4, 4), (0, 4)] = [(0, 0)]"
    by (simp add: simplify_def hypot_gt_15)
  have w8: "(\<forall>k. 0 < k \<and> k < 4 \<longrightarrow> \<not> stopsAsSpecified (solidImage 8 8) 4 0 0 k)
      \<and> stopsAsSpecified (solidImage 8 8) 4 0 0 4
      \<and> walk (solidImage 8 8) 4 4 (0, 0, 0) =
          (if found (traceLoop (solidImage 8 8) 4 0 0 (initialTracer 0 0))
           then Some (cx (traceLoop (solidImage 8 8) 4 0 0 (initialTracer 0 0)),
                      cy (traceLoop (solidImage 8 8) 4 0 0 (initialTracer 0 0)),
                      dir (traceLoop (solidImage 8 8) 4 0 0 (initialTracer 0 0)))
           else None)
      \<and> (findStart (solidImage 8 8) 4 0 0 = Some (Some (0, 0)) \<longrightarrow>
          getVerticesFromImage (solidImage 8 8) 4 =
            Some (Some (simplify (path (traceLoop (solidImage 8 8) 4 0 0 (initialTracer 0 0))))))"
    using traceLoop_within_budget [of "solidImage 8 8" 4 0 0] unfolding len8
    by (elim conjE, intro conjI) assumption+
  have s4: "stopsAsSpecified (solidImage 8 8) 4 0 0 4"
    using w8 by (elim conjE)
  have w4: "walk (solidImage 8 8) 4 4 (0, 0, 0) = Some (0, 0, 3)"
    using w8 by (simp add: tr)
  have n3: "\<not> stopsAsSpecified (solidImage 8 8) 4 0 0 3"
    using w8 by simp
  have "findStart (solidImage 8 8) 4 0 0 = Some (Some (0, 0)) \<longrightarrow>
          getVerticesFromImage (solidImage 8 8) 4 =
            Some (Some (simplify (path (traceLoop (solidImage 8 8) 4 0 0 (initialTracer 0 0)))))"
    using w8 by (elim conjE)
  then have "getVerticesFromImage (solidImage 8 8) 4 =
            Some (Some (simplify (path (traceLoop (solidImage 8 8) 4 0 0 (initialTracer 0 0)))))"
    using seed by (rule mp)
  then have v8: "getVerticesFromImage (solidImage 8 8) 4 = Some (Some [(0, 0)])"
    unfolding p8 small .
  have "walk (solidImage 8 8) 4 3 (0, 0, 0) =
          walk (solidImage 8 8) 4 (Suc (Suc (Suc 0))) (0, 0, 0)"
    by (simp only: numeral_3_eq_3)
  then have w3: "walk (solidImage 8 8) 4 3 (0, 0, 0) = Some (0, 4, 2)"
    by (simp add: solid_eval)
  have dot: "traceLoop dotImage 4 0 0 (initialTracer 0 0) =
      \<lparr>cx = 0, cy = 0, dir = 0, maxIter = 5000, path = [(0, 0)], found = False\<rparr>"
    by (simp add: traceLoop_unfold dotImage_def isSolid_maskImage checkDirs_def neighbour_def
        Let_def initialTracer_def)
  have pd: "path (traceLoop dotImage 4 0 0 (initialTracer 0 0)) = [(0, 0)]"
    and lend: "length (path (traceLoop dotImage 4 0 0 (initialTracer 0 0))) = 1"
    by (simp_all add: dot)
  have "walk dotImage 4 1 (0, 0, 0) =
          (if found (traceLoop dotImage 4 0 0 (initialTracer 0 0))
           then Some (cx (traceLoop dotImage 4 0 0 (initialTracer 0 0)),
                      cy (traceLoop dotImage 4 0 0 (initialTracer 0 0)),
                      dir (traceLoop dotImage 4 0 0 (initialTracer 0 0)))
           else None)"
    using traceLoop_within_budget [of dotImage 4 0 0] unfolding lend
    by (elim conjE) assumption
  then have wd: "walk dotImage 4 1 (0, 0, 0) = None"
    by (simp add: dot)
  have long: "length (path (traceLoop (solidImage 20004 20) 4 0 0 (initialTracer 0 0))) = 5000"
    by (simp add: long_image_path)
  have wl: "(\<forall>k. 0 < k \<and> k < 5000 \<longrightarrow> \<not> stopsAsSpecified (solidImage 20004 20) 4 0 0 k)
      \<and> stopsAsSpecified (solidImage 20004 20) 4 0 0 5000
      \<and> (0, 0) \<notin> set (tl (path (traceLoop (solidImage 20004 20) 4 0 0 (initialTracer 0 0))))
      \<and> (findStart (solidImage 20004 20) 4 0 0 = Some (Some (0, 0)) \<longrightarrow>
          getVerticesFromImage (solidImage 20004 20) 4 =
            Some (Some (simplify (path (traceLoop (solidImage 20004 20) 4 0 0 (initialTracer 0 0))))))"
    using traceLoop_within_budget [of "solidImage 20004 20" 4 0 0] unfolding long
    by (elim conjE, intro conjI) assumption+
  have s5000: "stopsAsSpecified (solidImage 20004 20) 4 0 0 5000"
    using wl by (elim conjE)
  have once: "(0, 0) \<notin> set (tl (path (traceLoop (solidImage 20004 20) 4 0 0 (initialTracer 0 0))))"
    using wl by (elim conjE)
  have "\<forall>k. 0 < k \<and> k < 5000 \<longrightarrow> \<not> stopsAsSpecified (solidImage 20004 20) 4 0 0 k"
    using wl by (elim conjE)
  then have "0 < (4999::nat) \<and> (4999::nat) < 5000 \<longrightarrow>
               \<not> stopsAsSpecified (solidImage 20004 20) 4 0 0 4999"
    by (rule spec)
  then have n4999: "\<not> stopsAsSpecified (solidImage 20004 20) 4 0 0 4999"
    by simp
  have "findStart (solidImage 20004 20) 4 0 0 = Some (Some (0, 0)) \<longrightarrow>
          getVerticesFromImage (solidImage 20004 20) 4 =
            Some (Some (simplify (path (traceLoop (solidImage 20004 20) 4 0 0 (initialTracer 0 0)))))"
    using wl by (elim conjE)
  then have vl: "getVerticesFromImage (solidImage 20004 20) 4 =
            Some (Some (simplify (path (traceLoop (solidImage 20004 20) 4 0 0 (initialTracer 0 0)))))"
    using long_image_seed by (rule mp)
  show ?thesis
    by (intro conjI) (rule seed p8 cx8 cy8 w3 w4 n3 s4 v8 pd wd long n4999 s5000 once vl)+
qed

end
